theory Spec2Isabelle
  imports Main "HOL-Library.Sublist"
begin

section \<open>Go strings: bytes, runes and UTF-8\<close>

text \<open>
  A Go string is a sequence of bytes; it is modelled as a \<^typ>\<open>string\<close>, whose
  characters are the bytes. \<open>len(s)\<close> is \<^const>\<open>length\<close>. A rune is a Unicode code
  point, modelled as a natural number.
\<close>

type_synonym rune = nat

definition RuneError :: rune where
  "RuneError = 0xFFFD"

definition newline :: char where
  "newline = CHR 0x0A"

text \<open>
  Decoding one rune from the front of a non-empty byte sequence, with its width in bytes,
  as the Go runtime does for \<open>[]rune(s)\<close> and for \<open>range s\<close>: a byte that does not
  start a well-formed encoding decodes to \<^const>\<open>RuneError\<close> with width 1.
\<close>

definition contByte :: "nat \<Rightarrow> bool" where
  "contByte b \<longleftrightarrow> 0x80 \<le> b \<and> b \<le> 0xBF"

fun decodeRune :: "nat list \<Rightarrow> rune \<times> nat" where
  "decodeRune [] = (RuneError, 0)"
| "decodeRune (b0 # bs) =
     (if b0 < 0x80 then (b0, 1)
      else if b0 < 0xC2 \<or> 0xF4 < b0 then (RuneError, 1)
      else if b0 < 0xE0 then
        (case bs of
           b1 # _ \<Rightarrow>
             if contByte b1 then ((b0 mod 0x20) * 0x40 + b1 mod 0x40, 2)
             else (RuneError, 1)
         | _ \<Rightarrow> (RuneError, 1))
      else if b0 < 0xF0 then
        (case bs of
           b1 # b2 # _ \<Rightarrow>
             if (if b0 = 0xE0 then 0xA0 else 0x80) \<le> b1
                \<and> b1 \<le> (if b0 = 0xED then 0x9F else 0xBF) \<and> contByte b2
             then ((b0 mod 0x10) * 0x1000 + (b1 mod 0x40) * 0x40 + b2 mod 0x40, 3)
             else (RuneError, 1)
         | _ \<Rightarrow> (RuneError, 1))
      else
        (case bs of
           b1 # b2 # b3 # _ \<Rightarrow>
             if (if b0 = 0xF0 then 0x90 else 0x80) \<le> b1
                \<and> b1 \<le> (if b0 = 0xF4 then 0x8F else 0xBF) \<and> contByte b2 \<and> contByte b3
             then ((b0 mod 0x08) * 0x40000 + (b1 mod 0x40) * 0x1000
                     + (b2 mod 0x40) * 0x40 + b3 mod 0x40, 4)
             else (RuneError, 1)
         | _ \<Rightarrow> (RuneError, 1)))"

declare decodeRune.simps [simp del]

function decodeBytes :: "nat list \<Rightarrow> rune list" where
  "decodeBytes [] = []"
| "decodeBytes (b # bs) =
     fst (decodeRune (b # bs)) # decodeBytes (drop (snd (decodeRune (b # bs)) - 1) bs)"
  by pat_completeness auto
termination
  by (relation "measure length") simp_all

text \<open>\<open>[]rune(s)\<close>: the runes of a string.\<close>

definition runes :: "string \<Rightarrow> rune list" where
  "runes s = decodeBytes (map of_char s)"

text \<open>
  \<open>string(r)\<close>: the UTF-8 encoding of one rune; a surrogate or a value beyond U+10FFFF
  is encoded as \<^const>\<open>RuneError\<close>.
\<close>

definition encodeRune :: "rune \<Rightarrow> string" where
  "encodeRune r =
     (if r < 0x80 then [char_of r]
      else if r < 0x800 then [char_of (0xC0 + r div 0x40), char_of (0x80 + r mod 0x40)]
      else if 0x10FFFF < r \<or> (0xD800 \<le> r \<and> r \<le> 0xDFFF) then
        [CHR 0xEF, CHR 0xBF, CHR 0xBD]
      else if r < 0x10000 then
        [char_of (0xE0 + r div 0x1000), char_of (0x80 + (r div 0x40) mod 0x40),
         char_of (0x80 + r mod 0x40)]
      else
        [char_of (0xF0 + r div 0x40000), char_of (0x80 + (r div 0x1000) mod 0x40),
         char_of (0x80 + (r div 0x40) mod 0x40), char_of (0x80 + r mod 0x40)])"

text \<open>\<open>string(rs)\<close> for a rune slice \<open>rs\<close>.\<close>

definition encodeRunes :: "rune list \<Rightarrow> string" where
  "encodeRunes rs = concat (map encodeRune rs)"

text \<open>The ellipsis marker U+2026, three bytes in UTF-8.\<close>

definition ellipsis :: string where
  "ellipsis = [CHR 0xE2, CHR 0x80, CHR 0xA6]"

subsection \<open>The functions of package strings that the search uses\<close>

text \<open>\<open>strings.Contains(s, substr)\<close>: \<open>substr\<close> occurs in \<open>s\<close> as a contiguous run of bytes.\<close>

fun Contains :: "string \<Rightarrow> string \<Rightarrow> bool" where
  "Contains [] substr = (substr = [])"
| "Contains (c # cs) substr = (prefix substr (c # cs) \<or> Contains cs substr)"

text \<open>\<open>strings.Join(xs, "\n")\<close>.\<close>

fun joinNL :: "string list \<Rightarrow> string" where
  "joinNL [] = []"
| "joinNL [x] = x"
| "joinNL (x # y # ys) = x @ newline # joinNL (y # ys)"

text \<open>\<open>strings.Split(s, "\n")\<close>; the empty string splits into one empty piece.\<close>

fun splitNL :: "string \<Rightarrow> string list" where
  "splitNL [] = [[]]"
| "splitNL (c # cs) =
     (if c = newline then [] # splitNL cs
      else (case splitNL cs of [] \<Rightarrow> [[c]] | x # xs \<Rightarrow> (c # x) # xs))"

section \<open>Limits\<close>

definition maxFileCount :: nat where
  "maxFileCount = 10000"

definition maxHunkCount :: nat where
  "maxHunkCount = 25000"

definition maxLineCharCount :: nat where
  "maxLineCharCount = 500"

section \<open>Truncating a line\<close>

text \<open>A run-time panic of the program.\<close>

datatype panic = SliceBoundsOutOfRange

text \<open>
  \<open>truncateLine\<close> returns a line of at most \<open>maxLineCharCount\<close> bytes as it is.
  Otherwise it converts the line to a rune slice and takes \<open>runes[0:maxLineCharCount]\<close>.
  A slice expression on a slice is in range up to the capacity of the slice, not its
  length, and panics beyond. The language leaves the capacity of the slice that
  \<open>[]rune(line)\<close> allocates to the runtime, so the model takes it as a parameter:
  \<open>spare n\<close> is the number of elements allocated beyond the length \<open>n\<close>; the elements
  between length and capacity of the fresh slice are zero.
\<close>

definition truncateLine :: "(nat \<Rightarrow> nat) \<Rightarrow> string \<Rightarrow> panic + string" where
  "truncateLine spare line =
     (if length line \<le> maxLineCharCount then Inr line
      else
        let rs = runes line;
            backing = rs @ replicate (spare (length rs)) 0
        in if maxLineCharCount \<le> length backing
           then Inr (encodeRunes (take maxLineCharCount backing) @ ellipsis)
           else Inl SliceBoundsOutOfRange)"

text \<open>An allocator that gives every rune slice exactly the capacity of its length.\<close>

definition exactFit :: "nat \<Rightarrow> nat" where
  "exactFit n = 0"

section \<open>Matching a line\<close>

text \<open>
  \<open>matchDelimiters\<close> ranges over the runes of the delimiter string twice and looks for
  the flag key between the encodings of the two runes.
\<close>

definition matchDelimiters :: "string \<Rightarrow> string \<Rightarrow> string \<Rightarrow> bool" where
  "matchDelimiters match flagKey delimiters =
     list_ex (\<lambda>left.
       list_ex (\<lambda>right. Contains match (encodeRune left @ flagKey @ encodeRune right))
         (runes delimiters))
       (runes delimiters)"

section \<open>Hunks\<close>

record HunkRep =
  ProjKey :: string
  FlagKey :: string
  StartingLineNumber :: int
  Lines :: string
  Aliases :: "string list"

record ReferenceHunksRep =
  Path :: string
  Hunks :: "HunkRep list"

text \<open>
  Modelled from the spec: the methods \<open>NumLines\<close> and \<open>Overlap\<close> of \<open>HunkRep\<close> belong
  to package \<open>ld\<close>, which is not among the source files. The spec has the overlap computed
  "purely from \<open>startingLine\<close> and the number of lines in \<open>text\<close>", two hunks being
  mergeable when the first one's "last covered line number" is at least the second one's
  "starting line minus one"; the aggregator tests the result against zero and
  \<open>mergeHunks\<close> uses it as the number of leading lines of the later hunk that the
  earlier one covers.
\<close>

definition NumLines :: "HunkRep \<Rightarrow> nat" where
  "NumLines h = length (splitNL (Lines h))"

definition Overlap :: "HunkRep \<Rightarrow> HunkRep \<Rightarrow> int" where
  "Overlap h hr = StartingLineNumber h + int (NumLines h) - StartingLineNumber hr"

text \<open>
  Modelled from the spec: \<open>helpers.Dedupe\<close> is not among the source files. The spec
  calls its result "the union (deduplicated)": every string is kept once, at its first
  occurrence.
\<close>

fun dedupeSeen :: "string list \<Rightarrow> string list \<Rightarrow> string list" where
  "dedupeSeen seen [] = []"
| "dedupeSeen seen (entry # s) =
     (if entry \<in> set seen then dedupeSeen seen s else entry # dedupeSeen (entry # seen) s)"

definition Dedupe :: "string list \<Rightarrow> string list" where
  "Dedupe s = dedupeSeen [] s"

section \<open>The excerpt of one match\<close>

text \<open>
  A \<open>file\<close> (here \<open>SourceFile\<close>) holds its path and its lines. The lines are a
  slice: every copy of the \<open>file\<close> value shares one backing array with the others.
  The model passes the contents of that array along explicitly, as a list of lines, and
  every function that can write to it returns the contents it leaves.
\<close>

record SourceFile =
  path :: string
  lines :: "string list"

text \<open>
  The start of the window of \<open>linesIfMatch\<close> and the length of \<open>context\<close>. With a
  negative \<open>ctxLines\<close> the slice \<open>context\<close> stays nil. The two slice expressions
  \<open>f.lines[startingLineNum:]\<close> and \<open>f.lines[startingLineNum:endingLineNum]\<close> panic
  when their bounds are out of order. The arithmetic is that of the integers, which is
  that of the type \<open>int\<close> as long as \<open>matchLineNum + ctxLines + 1\<close> does not exceed
  the largest \<open>int\<close>.
\<close>

definition contextWindow :: "string list \<Rightarrow> int \<Rightarrow> int \<Rightarrow> panic + (int \<times> nat)" where
  "contextWindow ls matchLineNum ctxLines =
     (if ctxLines \<ge> 0 then
        let startingLineNum =
              (if matchLineNum - ctxLines < 0 then 0 else matchLineNum - ctxLines);
            endingLineNum = matchLineNum + ctxLines + 1
        in if endingLineNum \<ge> int (length ls) then
             (if startingLineNum \<le> int (length ls)
              then Inr (startingLineNum, length ls - nat startingLineNum)
              else Inl SliceBoundsOutOfRange)
           else
             (if startingLineNum \<le> endingLineNum
              then Inr (startingLineNum, nat (endingLineNum - startingLineNum))
              else Inl SliceBoundsOutOfRange)
      else Inr (matchLineNum, 0))"

text \<open>
  The loop \<open>for i, line := range context { context[i] = truncateLine(line) }\<close>.
  \<open>context\<close> is a slice of \<open>f.lines\<close>, so the assignment to \<open>context[i]\<close> writes
  the element \<open>start + i\<close> of the file's lines. The function takes the index of the next
  element and the number of elements left.
\<close>

primrec truncateContext ::
  "(nat \<Rightarrow> nat) \<Rightarrow> nat \<Rightarrow> nat \<Rightarrow> string list \<Rightarrow> panic + string list" where
  "truncateContext spare 0 k ls = Inr ls"
| "truncateContext spare (Suc n) k ls =
     (case truncateLine spare (ls ! k) of
        Inl p \<Rightarrow> Inl p
      | Inr t \<Rightarrow> truncateContext spare n (Suc k) (ls[k := t]))"

text \<open>
  \<open>linesIfMatch\<close> on the file whose lines are \<open>ls\<close>: a panic, or the lines it leaves
  together with the hunk it returns (\<open>None\<close> for nil). The last loop assigns
  \<open>ret.Aliases = []string{alias}\<close> for each matched alias in turn.
\<close>

definition linesIfMatch ::
  "(nat \<Rightarrow> nat) \<Rightarrow> string list \<Rightarrow> string \<Rightarrow> string \<Rightarrow> string \<Rightarrow> string list \<Rightarrow> int \<Rightarrow> int
     \<Rightarrow> string \<Rightarrow> panic + (string list \<times> HunkRep option)" where
  "linesIfMatch spare ls projKey flagKey line aliases matchLineNum ctxLines delimiters =
     (let matchedFlag = matchDelimiters line flagKey delimiters;
          aliasMatches = filter (\<lambda>alias. Contains line alias) aliases
      in if \<not> matchedFlag \<and> length aliasMatches = 0 then Inr (ls, None)
         else
           (case contextWindow ls matchLineNum ctxLines of
              Inl p \<Rightarrow> Inl p
            | Inr (startingLineNum, n) \<Rightarrow>
                (case truncateContext spare n (nat startingLineNum) ls of
                   Inl p \<Rightarrow> Inl p
                 | Inr ls' \<Rightarrow>
                     Inr (ls',
                       Some \<lparr>ProjKey = projKey, FlagKey = flagKey,
                         StartingLineNumber = startingLineNum + 1,
                         Lines = joinNL (take n (drop (nat startingLineNum) ls')),
                         Aliases = foldl (\<lambda>acc alias. [alias]) [] aliasMatches\<rparr>))))"

section \<open>Merging and aggregation\<close>

definition mergeHunks :: "HunkRep \<Rightarrow> HunkRep \<Rightarrow> int \<Rightarrow> HunkRep list" where
  "mergeHunks a0 b0 ctxLines =
     (let a = (if StartingLineNumber a0 > StartingLineNumber b0 then b0 else a0);
          b = (if StartingLineNumber a0 > StartingLineNumber b0 then a0 else b0);
          aLines = splitNL (Lines a);
          bLines = splitNL (Lines b);
          overlap = Overlap a b
      in if ctxLines < 0 \<or> overlap < 0 then [a, b]
         else if overlap \<ge> int (length bLines) then [a]
         else
           [\<lparr>ProjKey = ProjKey a, FlagKey = FlagKey a,
             StartingLineNumber = StartingLineNumber a,
             Lines = joinNL (aLines @ drop (nat overlap) bLines),
             Aliases = Dedupe (Aliases a @ Aliases b)\<rparr>])"

text \<open>The body of the loop of \<open>aggregateHunksForFlag\<close> for a line that matched.\<close>

definition appendMatch :: "HunkRep list \<Rightarrow> HunkRep \<Rightarrow> int \<Rightarrow> HunkRep list" where
  "appendMatch hunksForFlag match ctxLines =
     (if hunksForFlag \<noteq> [] \<and> Overlap (last hunksForFlag) match \<ge> 0
      then butlast hunksForFlag @ mergeHunks (last hunksForFlag) match ctxLines
      else hunksForFlag @ [match])"

text \<open>
  The loop \<open>for i, line := range f.lines\<close>: \<open>n\<close> iterations are left, \<open>i\<close> is the
  index of the next line, which is read from the lines as they are at that moment.
\<close>

primrec aggregateFrom ::
  "(nat \<Rightarrow> nat) \<Rightarrow> string \<Rightarrow> string \<Rightarrow> string list \<Rightarrow> int \<Rightarrow> string \<Rightarrow> nat \<Rightarrow> nat
     \<Rightarrow> string list \<Rightarrow> HunkRep list \<Rightarrow> panic + (string list \<times> HunkRep list)" where
  "aggregateFrom spare projKey flagKey flagAliases ctxLines delimiters 0 i ls hunksForFlag =
     Inr (ls, hunksForFlag)"
| "aggregateFrom spare projKey flagKey flagAliases ctxLines delimiters (Suc n) i ls hunksForFlag =
     (case linesIfMatch spare ls projKey flagKey (ls ! i) flagAliases (int i) ctxLines delimiters of
        Inl p \<Rightarrow> Inl p
      | Inr (ls', None) \<Rightarrow>
          aggregateFrom spare projKey flagKey flagAliases ctxLines delimiters n (Suc i) ls'
            hunksForFlag
      | Inr (ls', Some match) \<Rightarrow>
          aggregateFrom spare projKey flagKey flagAliases ctxLines delimiters n (Suc i) ls'
            (appendMatch hunksForFlag match ctxLines))"

definition aggregateHunksForFlag ::
  "(nat \<Rightarrow> nat) \<Rightarrow> string list \<Rightarrow> string \<Rightarrow> string \<Rightarrow> string list \<Rightarrow> int \<Rightarrow> string
     \<Rightarrow> panic + (string list \<times> HunkRep list)" where
  "aggregateHunksForFlag spare ls projKey flagKey flagAliases ctxLines delimiters =
     aggregateFrom spare projKey flagKey flagAliases ctxLines delimiters (length ls) 0 ls []"

text \<open>
  \<open>toHunks\<close> ranges over the map of aliases in an order the language leaves open; the
  model takes the entries in the order of the iteration.
\<close>

fun hunksForFlags ::
  "(nat \<Rightarrow> nat) \<Rightarrow> string \<Rightarrow> int \<Rightarrow> string \<Rightarrow> (string \<times> string list) list \<Rightarrow> string list
     \<Rightarrow> HunkRep list \<Rightarrow> panic + (string list \<times> HunkRep list)" where
  "hunksForFlags spare projKey ctxLines delimiters [] ls hunks = Inr (ls, hunks)"
| "hunksForFlags spare projKey ctxLines delimiters ((flagKey, flagAliases) # rest) ls hunks =
     (case aggregateHunksForFlag spare ls projKey flagKey flagAliases ctxLines delimiters of
        Inl p \<Rightarrow> Inl p
      | Inr (ls', hs) \<Rightarrow> hunksForFlags spare projKey ctxLines delimiters rest ls' (hunks @ hs))"

definition toHunks ::
  "(nat \<Rightarrow> nat) \<Rightarrow> SourceFile \<Rightarrow> string \<Rightarrow> (string \<times> string list) list \<Rightarrow> int \<Rightarrow> string
     \<Rightarrow> panic + (string list \<times> ReferenceHunksRep option)" where
  "toHunks spare f projKey aliases ctxLines delimiters =
     (case hunksForFlags spare projKey ctxLines delimiters aliases (lines f) [] of
        Inl p \<Rightarrow> Inl p
      | Inr (ls', hunks) \<Rightarrow>
          Inr (ls', if length hunks = 0 then None else Some \<lparr>Path = path f, Hunks = hunks\<rparr>))"

section \<open>Collecting the references\<close>

text \<open>
  The loop of \<open>SearchForRefs\<close> that receives from the channel \<open>references\<close>: the list
  holds the values in the order the channel delivers them.
\<close>

fun collectReferences ::
  "ReferenceHunksRep list \<Rightarrow> ReferenceHunksRep list \<Rightarrow> nat \<Rightarrow> ReferenceHunksRep list" where
  "collectReferences [] ret totalHunks = ret"
| "collectReferences (reference # rest) ret totalHunks =
     (if length (ret @ [reference]) \<ge> maxFileCount then ret @ [reference]
      else if totalHunks + length (Hunks reference) > maxHunkCount then ret @ [reference]
      else collectReferences rest (ret @ [reference]) (totalHunks + length (Hunks reference)))"

definition SearchForRefs :: "ReferenceHunksRep list \<Rightarrow> ReferenceHunksRep list" where
  "SearchForRefs references = collectReferences references [] 0"

section \<open>Notions of the statements\<close>

text \<open>
  The condition under which \<open>linesIfMatch\<close> returns a hunk for a line: the flag key
  between delimiters, or at least one alias.
\<close>

definition isMatch :: "string \<Rightarrow> string \<Rightarrow> string list \<Rightarrow> string \<Rightarrow> bool" where
  "isMatch line flagKey aliases delimiters \<longleftrightarrow>
     matchDelimiters line flagKey delimiters
     \<or> length (filter (\<lambda>alias. Contains line alias) aliases) \<noteq> 0"

text \<open>
  The hunk that \<open>linesIfMatch\<close> returns for the matching line \<open>i\<close> of lines that need no
  truncation, with a context count that is not negative: the window reaches from line
  \<open>i - ctxLines\<close>, or the first line, to line \<open>i + ctxLines\<close>, or the last line.
\<close>

definition windowHunk ::
  "string list \<Rightarrow> string \<Rightarrow> string \<Rightarrow> string list \<Rightarrow> int \<Rightarrow> nat \<Rightarrow> HunkRep" where
  "windowHunk ls projKey flagKey aliases ctxLines i =
     \<lparr>ProjKey = projKey, FlagKey = flagKey,
      StartingLineNumber = int (i - nat ctxLines) + 1,
      Lines = joinNL (take (min (length ls) (i + nat ctxLines + 1) - (i - nat ctxLines))
                (drop (i - nat ctxLines) ls)),
      Aliases = foldl (\<lambda>acc alias. [alias]) []
                  (filter (\<lambda>alias. Contains (ls ! i) alias) aliases)\<rparr>"

text \<open>
  The lines a hunk covers are those from its starting line on, as many as its text has
  lines. A hunk lies before another when it starts earlier and its last line comes before
  the other's starting line.
\<close>

definition liesBefore :: "HunkRep \<Rightarrow> HunkRep \<Rightarrow> bool" where
  "liesBefore a b \<longleftrightarrow>
     StartingLineNumber a < StartingLineNumber b
     \<and> StartingLineNumber a + int (NumLines a) \<le> StartingLineNumber b"

text \<open>The number of hunks of a list of references.\<close>

definition hunkCount :: "ReferenceHunksRep list \<Rightarrow> nat" where
  "hunkCount refs = sum_list (map (\<lambda>reference. length (Hunks reference)) refs)"

section \<open>Inputs of the examples\<close>

text \<open>The delimiter string of the examples: the single and the double quote.\<close>

definition quoteDelimiters :: string where
  "quoteDelimiters = [CHR 0x27, CHR 0x22]"

text \<open>A line of 600 bytes and 300 runes: 300 times the two-byte character U+00E9.\<close>

definition eAcuteLine :: string where
  "eAcuteLine = concat (replicate 300 [CHR 0xC3, CHR 0xA9])"

text \<open>A line of 606 bytes and 306 runes: \<open>'flag'\<close> and then 300 times U+00E9.\<close>

definition shortRuneLine :: string where
  "shortRuneLine = [CHR 0x27] @ ''flag'' @ [CHR 0x27] @ eAcuteLine"

text \<open>A line of 501 bytes and 500 runes: 499 times \<open>a\<close> and then U+00E9.\<close>

definition boundaryLine :: string where
  "boundaryLine = replicate 499 (CHR ''a'') @ [CHR 0xC3, CHR 0xA9]"

text \<open>A line of 1001 bytes and 501 runes: 500 times U+00E9 and then \<open>x\<close>.\<close>

definition multiByteLine :: string where
  "multiByteLine = concat (replicate 500 [CHR 0xC3, CHR 0xA9]) @ ''x''"

text \<open>
  A line of 506 ASCII characters whose only occurrence of \<open>'flag'\<close> starts after the
  first 500 characters.
\<close>

definition longLine :: string where
  "longLine = replicate 500 (CHR ''a'') @ [CHR 0x27] @ ''flag'' @ [CHR 0x27]"

text \<open>The flag key between single quotes.\<close>

definition quotedFlag :: string where
  "quotedFlag = [CHR 0x27] @ ''flag'' @ [CHR 0x27]"

text \<open>The first 500 characters of \<open>longLine\<close> and the ellipsis.\<close>

definition truncatedLongLine :: string where
  "truncatedLongLine = replicate 500 (CHR ''a'') @ ellipsis"

text \<open>A reference with one hunk and a reference with 10,000 hunks.\<close>

definition someHunk :: HunkRep where
  "someHunk = \<lparr>ProjKey = ''proj'', FlagKey = ''flag'', StartingLineNumber = 1, Lines = ''flag'',
     Aliases = []\<rparr>"

definition oneHunkRef :: ReferenceHunksRep where
  "oneHunkRef = \<lparr>Path = ''main.go'', Hunks = [someHunk]\<rparr>"

definition bigRef :: ReferenceHunksRep where
  "bigRef = \<lparr>Path = ''min.js'', Hunks = replicate 10000 someHunk\<rparr>"

text \<open>Ten lines; the fifth and the seventh hold the flag key between delimiters.\<close>

definition tenLines :: "string list" where
  "tenLines =
     [''one'', ''two'', ''three'', ''four'', ''call('' @ [CHR 0x22] @ ''flag'' @ [CHR 0x22] @ '')'',
      ''six'', ''read('' @ [CHR 0x27] @ ''flag'' @ [CHR 0x27] @ '')'', ''eight'', ''nine'',
      ''ten'']"

section \<open>Auxiliary facts\<close>

subsection \<open>Strings and runes\<close>

lemma Contains_sublist: "Contains s substr \<longleftrightarrow> sublist substr s"
  by (induction s) (simp_all add: sublist_Cons_right)

lemma Contains_iff: "Contains s substr \<longleftrightarrow> (\<exists>pre post. s = pre @ substr @ post)"
  by (simp add: Contains_sublist sublist_def)

lemma Contains_set: "Contains s substr \<Longrightarrow> set substr \<subseteq> set s"
  by (auto simp: Contains_iff)

lemma prefix_Contains: "prefix substr s \<Longrightarrow> Contains s substr"
  by (auto simp: Contains_iff prefix_def)

lemma decodeRune_ascii: "b < 0x80 \<Longrightarrow> decodeRune (b # bs) = (b, 1)"
  by (simp add: decodeRune.simps)

lemma decodeBytes_ascii: "\<forall>b\<in>set bs. b < 0x80 \<Longrightarrow> decodeBytes (bs @ cs) = bs @ decodeBytes cs"
  by (induction bs) (simp_all add: decodeRune_ascii)

lemma runes_ascii_append:
  "\<forall>c\<in>set s. of_char c < (0x80::nat) \<Longrightarrow> runes (s @ t) = map of_char s @ runes t"
  using decodeBytes_ascii [of "map of_char s" "map of_char t"] by (simp add: runes_def)

lemma runes_ascii: "\<forall>c\<in>set s. of_char c < (0x80::nat) \<Longrightarrow> runes s = map of_char s"
  using runes_ascii_append [of s "[]"] by (simp add: runes_def)

lemma encodeRunes_ascii: "\<forall>r\<in>set rs. r < 0x80 \<Longrightarrow> encodeRunes rs = map char_of rs"
  by (induction rs) (simp_all add: encodeRunes_def encodeRune_def)

lemma encodeRunes_of_char:
  "\<forall>c\<in>set s. of_char c < (0x80::nat) \<Longrightarrow> encodeRunes (map of_char s) = s"
  by (simp add: encodeRunes_ascii comp_def)

lemma encodeRunes_append: "encodeRunes (xs @ ys) = encodeRunes xs @ encodeRunes ys"
  by (simp add: encodeRunes_def)

lemma decodeBytes_two:
  "decodeBytes (concat (replicate n [0xC3, 0xA9]) @ cs) = replicate n 0xE9 @ decodeBytes cs"
  by (induction n) (simp_all add: decodeRune.simps contByte_def)

lemma runes_e_acute:
  "runes (concat (replicate n [CHR 0xC3, CHR 0xA9])) = replicate n 0xE9"
  using decodeBytes_two [of n "[]"] by (simp add: runes_def map_concat)

lemma encodeRune_e_acute: "encodeRune 0xE9 = [CHR 0xC3, CHR 0xA9]"
  by (simp add: encodeRune_def char_of_def bit_Suc_0_iff)

lemma encodeRunes_e_acute: "encodeRunes (replicate n 0xE9) = concat (replicate n [CHR 0xC3, CHR 0xA9])"
  by (induction n) (simp_all add: encodeRunes_def encodeRune_e_acute)

lemma length_concat_two: "length (concat (replicate n [a, b])) = 2 * n"
  by (induction n) simp_all

lemma runes_ellipsis: "runes ellipsis = [0x2026]"
  by (simp add: runes_def ellipsis_def decodeRune.simps contByte_def)

subsection \<open>Joining and splitting lines\<close>

lemma length_splitNL: "length (splitNL s) = count_list s newline + 1"
  by (induction s) (auto split: list.splits)

lemma splitNL_nonempty: "splitNL s \<noteq> []"
  using length_splitNL [of s] by auto

lemma splitNL_no_newline: "newline \<notin> set s \<Longrightarrow> splitNL s = [s]"
  by (induction s) auto

lemma splitNL_append: "newline \<notin> set a \<Longrightarrow> splitNL (a @ newline # b) = a # splitNL b"
  by (induction a) auto

lemma splitNL_joinNL:
  "xs \<noteq> [] \<Longrightarrow> \<forall>l\<in>set xs. newline \<notin> set l \<Longrightarrow> splitNL (joinNL xs) = xs"
proof (induction xs rule: joinNL.induct)
  case 1 then show ?case by simp
next
  case (2 x) then show ?case by (simp add: splitNL_no_newline)
next
  case (3 x y ys) then show ?case by (simp add: splitNL_append)
qed

lemma splitNL_excerpt:
  assumes "\<forall>l\<in>set ls. newline \<notin> set l" and "0 < n" and "s + n \<le> length ls"
  shows "splitNL (joinNL (take n (drop s ls))) = take n (drop s ls)"
proof (rule splitNL_joinNL)
  have "length (take n (drop s ls)) = n" using assms(3) by simp
  then show "take n (drop s ls) \<noteq> []" using assms(2) by auto
  show "\<forall>l\<in>set (take n (drop s ls)). newline \<notin> set l"
    using assms(1) by (auto dest!: in_set_takeD in_set_dropD)
qed

lemma excerpt_append:
  assumes "sa \<le> sb" and "sb \<le> sa + na" and "sa + na < sb + nb"
  shows "take na (drop sa ls) @ drop (sa + na - sb) (take nb (drop sb ls))
           = take (sb + nb - sa) (drop sa ls)"
proof -
  have "drop (sa + na - sb) (take nb (drop sb ls))
          = take (nb - (sa + na - sb)) (drop (sa + na - sb) (drop sb ls))"
    by (simp add: drop_take)
  also have "drop (sa + na - sb) (drop sb ls) = drop na (drop sa ls)"
    using assms by (simp add: add.commute)
  also have "nb - (sa + na - sb) = sb + nb - sa - na"
    using assms by simp
  finally have "take na (drop sa ls) @ drop (sa + na - sb) (take nb (drop sb ls))
      = take na (drop sa ls) @ take (sb + nb - sa - na) (drop na (drop sa ls))"
    by simp
  also have "\<dots> = take (na + (sb + nb - sa - na)) (drop sa ls)"
    by (simp only: take_add)
  also have "na + (sb + nb - sa - na) = sb + nb - sa"
    using assms by simp
  finally show ?thesis .
qed

subsection \<open>Truncation\<close>

lemma truncateLine_short: "length line \<le> maxLineCharCount \<Longrightarrow> truncateLine spare line = Inr line"
  by (simp add: truncateLine_def)

lemma truncateLine_long:
  "maxLineCharCount < length line \<Longrightarrow> maxLineCharCount \<le> length (runes line) \<Longrightarrow>
   truncateLine spare line = Inr (encodeRunes (take maxLineCharCount (runes line)) @ ellipsis)"
  by (simp add: truncateLine_def Let_def)

lemma truncateLine_ascii:
  assumes "\<forall>c\<in>set s. of_char c < (0x80::nat)" and "maxLineCharCount < length s"
  shows "truncateLine spare s = Inr (take maxLineCharCount s @ ellipsis)"
proof -
  have "runes s = map of_char s" using assms(1) by (rule runes_ascii)
  moreover have "encodeRunes (map of_char (take maxLineCharCount s)) = take maxLineCharCount s"
    using assms(1) by (intro encodeRunes_of_char) (auto dest: in_set_takeD)
  ultimately show ?thesis using assms(2) by (simp add: truncateLine_long take_map)
qed

lemma truncateLine_panics:
  "maxLineCharCount < length line \<Longrightarrow>
   length (runes line) + spare (length (runes line)) < maxLineCharCount \<Longrightarrow>
   truncateLine spare line = Inl SliceBoundsOutOfRange"
  by (simp add: truncateLine_def Let_def)

lemma truncateContext_short:
  "\<forall>l\<in>set ls. length l \<le> maxLineCharCount \<Longrightarrow> k + n \<le> length ls \<Longrightarrow>
   truncateContext spare n k ls = Inr ls"
  by (induction n arbitrary: k) (simp_all add: truncateLine_short)

subsection \<open>Matches\<close>

lemma matchDelimiters_iff:
  "matchDelimiters line flagKey delimiters \<longleftrightarrow>
     (\<exists>left\<in>set (runes delimiters). \<exists>right\<in>set (runes delimiters).
        \<exists>pre post. line = pre @ encodeRune left @ flagKey @ encodeRune right @ post)"
  by (simp add: matchDelimiters_def list_ex_iff Contains_iff)

lemma matchDelimiters_needs_key:
  "matchDelimiters line flagKey delimiters \<Longrightarrow> set flagKey \<subseteq> set line"
  by (auto simp: matchDelimiters_iff)

lemma runes_quotes: "runes [CHR 0x27, CHR 0x22] = [0x27, 0x22]"
  by (simp add: runes_ascii)

lemma encodeRune_quotes: "encodeRune 0x27 = [CHR 0x27]" "encodeRune 0x22 = [CHR 0x22]"
  by (simp_all add: encodeRune_def char_of_def bit_Suc_0_iff)

lemma runes_quoteDelimiters: "runes quoteDelimiters = [0x27, 0x22]"
  by (simp add: quoteDelimiters_def runes_ascii)

lemma matchDelimiters_single_quotes:
  "matchDelimiters (pre @ [CHR 0x27] @ flagKey @ [CHR 0x27] @ post) flagKey quoteDelimiters"
  unfolding matchDelimiters_iff runes_quoteDelimiters
  by (rule bexI [of _ "0x27"], rule bexI [of _ "0x27"]) (auto simp: encodeRune_quotes)

lemma matchDelimiters_double_quotes:
  "matchDelimiters (pre @ [CHR 0x22] @ flagKey @ [CHR 0x22] @ post) flagKey quoteDelimiters"
  unfolding matchDelimiters_iff runes_quoteDelimiters
  by (rule bexI [of _ "0x22"], rule bexI [of _ "0x22"]) (auto simp: encodeRune_quotes)

lemma isMatch_no_key: "\<not> set k \<subseteq> set l \<Longrightarrow> isMatch l k [] d = False"
  using matchDelimiters_needs_key [of l k d] by (auto simp: isMatch_def)

lemma isMatch_single_quotes: "isMatch (pre @ [CHR 0x27] @ k @ [CHR 0x27] @ post) k as quoteDelimiters"
  using matchDelimiters_single_quotes [of pre k post] by (simp add: isMatch_def)

lemma isMatch_double_quotes: "isMatch (pre @ [CHR 0x22] @ k @ [CHR 0x22] @ post) k as quoteDelimiters"
  using matchDelimiters_double_quotes [of pre k post] by (simp add: isMatch_def)

lemma isMatch_quoted_flag:
  "isMatch ([CHR 0x27] @ ''flag'' @ [CHR 0x27]) ''flag'' [] quoteDelimiters"
  using isMatch_single_quotes [of "[]" "''flag''" "[]" "[]"] by simp

subsection \<open>The hunk of one matching line\<close>

lemma linesIfMatch_not_isMatch:
  "\<not> isMatch l k as d \<Longrightarrow> linesIfMatch spare ls p k l as i c d = Inr (ls, None)"
  by (simp add: linesIfMatch_def isMatch_def)

lemma linesIfMatch_no_match:
  "\<not> matchDelimiters l k d \<Longrightarrow> filter (\<lambda>alias. Contains l alias) as = [] \<Longrightarrow>
   linesIfMatch spare ls p k l as i c d = Inr (ls, None)"
  by (simp add: linesIfMatch_def)

lemma linesIfMatch_negative:
  "c < 0 \<Longrightarrow> isMatch l k as d \<Longrightarrow>
   linesIfMatch spare ls p k l as i c d =
     Inr (ls, Some \<lparr>ProjKey = p, FlagKey = k, StartingLineNumber = i + 1, Lines = [],
                  Aliases = foldl (\<lambda>acc alias. [alias]) [] (filter (\<lambda>alias. Contains l alias) as)\<rparr>)"
  by (auto simp: linesIfMatch_def isMatch_def contextWindow_def)

lemma linesIfMatch_start:
  assumes "0 \<le> c" and "linesIfMatch spare ls p k l as i c d = Inr (ls', Some m)"
  shows "StartingLineNumber m = max 0 (i - c) + 1"
  using assms
  by (auto simp: linesIfMatch_def contextWindow_def Let_def
      split: if_splits sum.splits prod.splits)

lemma contextWindow_single: "0 \<le> c \<Longrightarrow> contextWindow [l] 0 c = Inr (0, 1)"
  by (simp add: contextWindow_def)

lemma linesIfMatch_single:
  assumes "matchDelimiters l k d \<or> filter (\<lambda>alias. Contains l alias) as \<noteq> []" and "0 \<le> c"
  shows "linesIfMatch spare [l] p k l as 0 c d =
     (case truncateLine spare l of
        Inl e \<Rightarrow> Inl e
      | Inr t \<Rightarrow> Inr ([t], Some \<lparr>ProjKey = p, FlagKey = k, StartingLineNumber = 1, Lines = t,
                 Aliases = foldl (\<lambda>acc alias. [alias]) [] (filter (\<lambda>alias. Contains l alias) as)\<rparr>))"
  using assms by (auto simp: linesIfMatch_def contextWindow_single split: sum.splits)

lemma contextWindow_index:
  assumes "i < length ls" and "0 \<le> c"
  shows "contextWindow ls (int i) c =
     Inr (int (i - nat c), min (length ls) (i + nat c + 1) - (i - nat c))"
proof -
  have s: "(if int i - c < 0 then 0 else int i - c) = int (i - nat c)"
    using assms by auto
  show ?thesis
  proof (cases "int i + c + 1 \<ge> int (length ls)")
    case True
    then have "min (length ls) (i + nat c + 1) = length ls" using assms by linarith
    then show ?thesis using True assms
      unfolding contextWindow_def Let_def s by simp
  next
    case False
    then have m: "min (length ls) (i + nat c + 1) = i + nat c + 1" using assms by linarith
    have n: "nat (int i + c + 1 - int (i - nat c)) = i + nat c + 1 - (i - nat c)"
      using assms by linarith
    have le: "int (i - nat c) \<le> int i + c + 1" using assms by linarith
    show ?thesis
      unfolding contextWindow_def Let_def s m n using False assms(2) le by simp
  qed
qed

lemma linesIfMatch_short_lines:
  assumes "\<forall>l\<in>set ls. length l \<le> maxLineCharCount" and "i < length ls" and "0 \<le> c"
    and "isMatch l k as d"
  shows "linesIfMatch spare ls p k l as (int i) c d =
     Inr (ls, Some \<lparr>ProjKey = p, FlagKey = k, StartingLineNumber = int (i - nat c) + 1,
       Lines = joinNL (take (min (length ls) (i + nat c + 1) - (i - nat c)) (drop (i - nat c) ls)),
       Aliases = foldl (\<lambda>acc alias. [alias]) [] (filter (\<lambda>alias. Contains l alias) as)\<rparr>)"
proof -
  define s where "s = i - nat c"
  define n where "n = min (length ls) (i + nat c + 1) - (i - nat c)"
  have cw: "contextWindow ls (int i) c = Inr (int s, n)"
    unfolding s_def n_def by (rule contextWindow_index [OF assms(2,3)])
  have "s + n \<le> length ls"
    unfolding s_def n_def using assms(2) by linarith
  then have tc: "truncateContext spare n s ls = Inr ls"
    using assms(1) by (intro truncateContext_short)
  have "linesIfMatch spare ls p k l as (int i) c d =
     Inr (ls, Some \<lparr>ProjKey = p, FlagKey = k, StartingLineNumber = int s + 1,
       Lines = joinNL (take n (drop s ls)),
       Aliases = foldl (\<lambda>acc alias. [alias]) [] (filter (\<lambda>alias. Contains l alias) as)\<rparr>)"
    using assms(4) by (simp add: linesIfMatch_def isMatch_def Let_def cw tc)
  then show ?thesis unfolding s_def n_def .
qed

lemma linesIfMatch_windowHunk:
  assumes "\<forall>l\<in>set ls. length l \<le> maxLineCharCount" and "i < length ls" and "0 \<le> c"
    and "isMatch (ls ! i) k as d"
  shows "linesIfMatch spare ls p k (ls ! i) as (int i) c d = Inr (ls, Some (windowHunk ls p k as c i))"
  unfolding windowHunk_def by (rule linesIfMatch_short_lines [OF assms])

lemma appendMatch_Nil: "appendMatch [] m c = [m]"
  by (simp add: appendMatch_def)

lemma aggregate_single:
  "aggregateHunksForFlag spare [l] p k as c d =
     (case linesIfMatch spare [l] p k l as 0 c d of
        Inl e \<Rightarrow> Inl e
      | Inr (ls', None) \<Rightarrow> Inr (ls', [])
      | Inr (ls', Some m) \<Rightarrow> Inr (ls', [m]))"
  by (simp add: aggregateHunksForFlag_def appendMatch_Nil split: sum.splits option.splits)

subsection \<open>Files whose lines need no truncation\<close>

lemma aggregateFrom_short_lines:
  assumes "\<forall>l\<in>set ls. length l \<le> maxLineCharCount" and "0 \<le> c" and "i + n \<le> length ls"
  shows "aggregateFrom spare p k as c d n i ls hs =
     Inr (ls, foldl (\<lambda>hs j. if isMatch (ls ! j) k as d
                              then appendMatch hs (windowHunk ls p k as c j) c else hs)
                hs [i..<i + n])"
  using assms(3)
proof (induction n arbitrary: i hs)
  case 0
  then show ?case by simp
next
  case (Suc n)
  have upt: "[i..<Suc (i + n)] = i # [Suc i..<Suc (i + n)]"
    by (simp add: upt_conv_Cons)
  have i: "i < length ls" and n: "Suc i + n \<le> length ls"
    using Suc.prems by simp_all
  show ?case
  proof (cases "isMatch (ls ! i) k as d")
    case True
    then show ?thesis
      using Suc.IH [OF n] linesIfMatch_windowHunk [OF assms(1) i assms(2) True, of spare p]
      by (simp add: upt del: upt_Suc)
  next
    case False
    then show ?thesis
      using Suc.IH [OF n] by (simp add: linesIfMatch_not_isMatch upt del: upt_Suc)
  qed
qed

lemma aggregate_short_lines:
  assumes "\<forall>l\<in>set ls. length l \<le> maxLineCharCount" and "0 \<le> c"
  shows "aggregateHunksForFlag spare ls p k as c d =
     Inr (ls, foldl (\<lambda>hs j. if isMatch (ls ! j) k as d
                              then appendMatch hs (windowHunk ls p k as c j) c else hs)
                [] [0..<length ls])"
  using aggregateFrom_short_lines [OF assms, of 0 "length ls" spare p k as d "[]"]
  by (simp add: aggregateHunksForFlag_def)

subsection \<open>The lines of the examples\<close>

lemma runes_eAcuteLine: "runes eAcuteLine = replicate 300 0xE9"
  by (simp add: eAcuteLine_def runes_e_acute)

lemma length_eAcuteLine: "length eAcuteLine = 600"
  by (simp add: eAcuteLine_def length_concat_two)

lemma length_shortRuneLine: "length shortRuneLine = 606"
  by (simp add: shortRuneLine_def length_eAcuteLine)

lemma runes_shortRuneLine: "length (runes shortRuneLine) = 306"
  using runes_ascii_append [of "[CHR 0x27] @ ''flag'' @ [CHR 0x27]" eAcuteLine]
  by (simp add: shortRuneLine_def runes_eAcuteLine)

lemma truncateLine_shortRuneLine: "truncateLine exactFit shortRuneLine = Inl SliceBoundsOutOfRange"
  by (simp add: truncateLine_panics length_shortRuneLine runes_shortRuneLine maxLineCharCount_def
      exactFit_def)

lemma match_shortRuneLine: "matchDelimiters shortRuneLine ''flag'' quoteDelimiters"
  using matchDelimiters_single_quotes [of "[]" "''flag''" eAcuteLine]
  by (simp add: shortRuneLine_def)

lemma runes_multiByteLine: "runes multiByteLine = replicate 500 0xE9 @ [0x78]"
  using decodeBytes_two [of 500 "[0x78]"]
  by (simp add: multiByteLine_def runes_def map_concat decodeRune_ascii)

lemma length_multiByteLine: "length multiByteLine = 1001"
  by (simp add: multiByteLine_def length_concat_two)

lemma match_longLine: "matchDelimiters longLine ''flag'' quoteDelimiters"
  using matchDelimiters_single_quotes [of "replicate 500 (CHR ''a'')" "''flag''" "[]"]
  by (simp add: longLine_def)

lemma truncateLine_longLine: "truncateLine spare longLine = Inr truncatedLongLine"
proof -
  have "\<forall>c\<in>set longLine. of_char c < (0x80::nat)"
    by (auto simp: longLine_def)
  moreover have "maxLineCharCount < length longLine"
    by (simp add: longLine_def maxLineCharCount_def)
  ultimately have "truncateLine spare longLine = Inr (take maxLineCharCount longLine @ ellipsis)"
    by (rule truncateLine_ascii)
  then show ?thesis
    by (simp add: longLine_def maxLineCharCount_def truncatedLongLine_def)
qed

lemma flag_not_in_truncatedLongLine: "\<not> Contains truncatedLongLine ''flag''"
proof
  assume "Contains truncatedLongLine ''flag''"
  then have "set ''flag'' \<subseteq> set truncatedLongLine" by (rule Contains_set)
  then show False by (simp add: truncatedLongLine_def ellipsis_def)
qed

lemma no_match_truncatedLongLine: "\<not> matchDelimiters truncatedLongLine ''flag'' delimiters"
proof
  assume "matchDelimiters truncatedLongLine ''flag'' delimiters"
  then have "set ''flag'' \<subseteq> set truncatedLongLine" by (rule matchDelimiters_needs_key)
  then show False by (simp add: truncatedLongLine_def ellipsis_def)
qed

lemma truncateLine_truncatedLongLine: "truncateLine spare truncatedLongLine = Inr truncatedLongLine"
proof -
  have r: "runes truncatedLongLine = map of_char (replicate 500 (CHR ''a'')) @ [0x2026]"
    unfolding truncatedLongLine_def
    by (subst runes_ascii_append) (simp_all add: runes_ellipsis)
  have "maxLineCharCount < length truncatedLongLine"
    by (simp add: truncatedLongLine_def ellipsis_def maxLineCharCount_def)
  moreover have "maxLineCharCount \<le> length (runes truncatedLongLine)"
    by (simp add: r maxLineCharCount_def)
  ultimately have "truncateLine spare truncatedLongLine
      = Inr (encodeRunes (take maxLineCharCount (runes truncatedLongLine)) @ ellipsis)"
    by (rule truncateLine_long)
  moreover have "encodeRunes (take maxLineCharCount (runes truncatedLongLine))
      = replicate 500 (CHR ''a'')"
  proof -
    have e: "encodeRunes (map of_char (replicate 500 (CHR ''a''))) = replicate 500 (CHR ''a'')"
      by (rule encodeRunes_of_char) simp
    have "take maxLineCharCount (runes truncatedLongLine) = map of_char (replicate 500 (CHR ''a''))"
      unfolding r maxLineCharCount_def by (simp del: map_replicate)
    then show ?thesis by (simp only: e)
  qed
  ultimately show ?thesis by (simp add: truncatedLongLine_def)
qed

lemma aaa_in_lines: "Contains longLine ''aaa''" "Contains truncatedLongLine ''aaa''"
proof -
  have "replicate 500 (CHR ''a'') = ''aaa'' @ replicate 497 (CHR ''a'')"
    using replicate_add [of 3 497 "CHR ''a''"] by (simp add: numeral_3_eq_3)
  then show "Contains longLine ''aaa''" "Contains truncatedLongLine ''aaa''"
    by (auto intro!: prefix_Contains simp: longLine_def truncatedLongLine_def)
qed

lemma length_tenLines: "length tenLines = 10"
  by (simp add: tenLines_def)

lemma upt_ten: "[0..<10] = [0, 1, 2, 3, 4, 5, 6, 7, 8, 9]"
  by (simp add: upt_rec)

lemma tenLines_short: "\<forall>l\<in>set tenLines. length l \<le> maxLineCharCount"
  by (simp add: tenLines_def maxLineCharCount_def)

lemma tenLines_no_newline: "\<forall>l\<in>set tenLines. newline \<notin> set l"
  by (simp add: tenLines_def newline_def)

lemma tenLines_isMatch:
  "map (\<lambda>l. isMatch l ''flag'' [] quoteDelimiters) tenLines
     = [False, False, False, False, True, False, True, False, False, False]"
  using isMatch_double_quotes [of "''call(''" "''flag''" "'')''" "[]"]
    isMatch_single_quotes [of "''read(''" "''flag''" "'')''" "[]"]
  by (simp add: tenLines_def isMatch_no_key)

lemma tenLines_matches:
  "\<not> isMatch (tenLines ! 0) ''flag'' [] quoteDelimiters"
  "\<not> isMatch (tenLines ! 1) ''flag'' [] quoteDelimiters"
  "\<not> isMatch (tenLines ! 2) ''flag'' [] quoteDelimiters"
  "\<not> isMatch (tenLines ! 3) ''flag'' [] quoteDelimiters"
  "isMatch (tenLines ! 4) ''flag'' [] quoteDelimiters"
  "\<not> isMatch (tenLines ! 5) ''flag'' [] quoteDelimiters"
  "isMatch (tenLines ! 6) ''flag'' [] quoteDelimiters"
  "\<not> isMatch (tenLines ! 7) ''flag'' [] quoteDelimiters"
  "\<not> isMatch (tenLines ! 8) ''flag'' [] quoteDelimiters"
  "\<not> isMatch (tenLines ! 9) ''flag'' [] quoteDelimiters"
  using tenLines_isMatch by (simp_all add: tenLines_def)

lemma tenLines_fold:
  assumes "0 \<le> c"
  shows "aggregateHunksForFlag spare tenLines p ''flag'' [] c quoteDelimiters =
    Inr (tenLines,
      appendMatch (appendMatch [] (windowHunk tenLines p ''flag'' [] c 4) c)
        (windowHunk tenLines p ''flag'' [] c 6) c)"
proof -
  have one: "\<not> isMatch (tenLines ! Suc 0) ''flag'' [] quoteDelimiters"
    using tenLines_matches(2) by simp
  show ?thesis
    unfolding aggregate_short_lines [OF tenLines_short assms] length_tenLines upt_ten
    by (simp add: tenLines_matches one)
qed

section \<open>Properties of the search\<close>

subsection \<open>Primary matches\<close>

lemma matchDelimiters_quoted_flag: "matchDelimiters (''x = '' @ [CHR 0x27] @ ''flag'' @ [CHR 0x27]) ''flag'' [CHR 0x27, CHR 0x22]"
  by (simp add: matchDelimiters_def runes_quotes encodeRune_quotes)

lemma matchDelimiters_flagged: "\<not> matchDelimiters ''x = flagged'' ''flag'' [CHR 0x27, CHR 0x22]"
  by (simp add: matchDelimiters_def runes_quotes encodeRune_quotes)

text \<open>
  C4. A line gives a primary match for a flag key exactly when it has the form
  \<open>pre @ left @ flagKey @ right @ post\<close>, where \<open>left\<close> and \<open>right\<close> are the
  encodings of two runes of the delimiter string (possibly the same rune). With the
  delimiters \<open>'\<close> and \<open>"\<close>, the line \<open>x = 'flag'\<close> matches the key \<open>flag\<close> and
  the line \<open>x = flagged\<close> does not.
\<close>

theorem matchDelimiters_iff_flanked:
  "(matchDelimiters line flagKey delimiters \<longleftrightarrow>
      (\<exists>left\<in>set (runes delimiters). \<exists>right\<in>set (runes delimiters).
         \<exists>pre post. line = pre @ encodeRune left @ flagKey @ encodeRune right @ post))
   \<and> matchDelimiters (''x = '' @ [CHR 0x27] @ ''flag'' @ [CHR 0x27]) ''flag'' [CHR 0x27, CHR 0x22]
   \<and> \<not> matchDelimiters ''x = flagged'' ''flag'' [CHR 0x27, CHR 0x22]"
  using matchDelimiters_iff matchDelimiters_quoted_flag matchDelimiters_flagged by blast

theorem matchDelimiters_iff_flanked_witness:
  "\<exists>left\<in>set (runes [CHR 0x27, CHR 0x22]). \<exists>right\<in>set (runes [CHR 0x27, CHR 0x22]).
     \<exists>pre post. ''x = '' @ [CHR 0x27] @ ''flag'' @ [CHR 0x27]
        = pre @ encodeRune left @ ''flag'' @ encodeRune right @ post"
  using matchDelimiters_iff_flanked
    [of "''x = '' @ [CHR 0x27] @ ''flag'' @ [CHR 0x27]" "''flag''" "[CHR 0x27, CHR 0x22]"]
  by blast

subsection \<open>Truncation of a line\<close>

lemma runes_boundaryLine: "runes boundaryLine = map of_char (replicate 499 (CHR ''a'')) @ [0xE9]"
proof -
  have "runes [CHR 0xC3, CHR 0xA9] = [0xE9]"
    using runes_e_acute [of 1] by simp
  then show ?thesis
    unfolding boundaryLine_def by (subst runes_ascii_append) simp_all
qed

lemma truncateLine_boundaryLine: "truncateLine spare boundaryLine = Inr (boundaryLine @ ellipsis)"
proof -
  have long: "maxLineCharCount < length boundaryLine"
    by (simp add: boundaryLine_def maxLineCharCount_def)
  have count: "maxLineCharCount \<le> length (runes boundaryLine)"
    by (simp add: runes_boundaryLine maxLineCharCount_def)
  have all: "take maxLineCharCount (runes boundaryLine) = runes boundaryLine"
    by (simp add: runes_boundaryLine maxLineCharCount_def)
  have a: "encodeRunes (map of_char (replicate 499 (CHR ''a''))) = replicate 499 (CHR ''a'')"
    by (rule encodeRunes_of_char) simp
  have e: "encodeRunes [0xE9] = [CHR 0xC3, CHR 0xA9]"
    using encodeRunes_e_acute [of 1] by simp
  have "encodeRunes (runes boundaryLine) = replicate 499 (CHR ''a'') @ [CHR 0xC3, CHR 0xA9]"
    unfolding runes_boundaryLine encodeRunes_append a e ..
  then have "encodeRunes (runes boundaryLine) = boundaryLine"
    by (simp only: boundaryLine_def)
  with truncateLine_long [OF long count, of spare] all show ?thesis by simp
qed

text \<open>
  C5, as stated, fails. The length that \<open>truncateLine\<close> compares with the limit is the
  number of bytes, and the prefix it takes is counted in characters. The line of 499
  times \<open>a\<close> and one two-byte character has 500 characters and 501 bytes: it gets the
  ellipsis appended although no character is cut off. The line of 300 two-byte characters
  is longer than the limit (600 bytes), yet it is not replaced by a prefix of 500
  characters and the ellipsis: it has only 300 characters, the rune slice is shorter than
  500, and with a slice of that capacity \<open>runes[0:maxLineCharCount]\<close> panics.
\<close>

theorem truncateLine_short_runes_counterexample:
  "length boundaryLine = 501 \<and> length (runes boundaryLine) = 500
   \<and> truncateLine exactFit boundaryLine = Inr (boundaryLine @ ellipsis)
   \<and> maxLineCharCount < length eAcuteLine \<and> length (runes eAcuteLine) = 300
   \<and> truncateLine exactFit eAcuteLine = Inl SliceBoundsOutOfRange"
proof -
  have "length boundaryLine = 501"
    by (simp add: boundaryLine_def)
  moreover have "length (runes boundaryLine) = 500"
    by (simp add: runes_boundaryLine)
  moreover have "maxLineCharCount < length eAcuteLine" "length (runes eAcuteLine) = 300"
    by (simp_all add: length_eAcuteLine runes_eAcuteLine maxLineCharCount_def)
  moreover have "truncateLine exactFit eAcuteLine = Inl SliceBoundsOutOfRange"
    by (simp add: truncateLine_panics length_eAcuteLine runes_eAcuteLine maxLineCharCount_def
        exactFit_def)
  ultimately show ?thesis
    using truncateLine_boundaryLine [of exactFit] by simp
qed

text \<open>
  C5, amended. \<open>truncateLine\<close> returns a line of at most 500 bytes unchanged. A line of
  more than 500 bytes that has at least 500 characters (runes) is replaced by the encoding
  of its first 500 characters followed by one ellipsis marker; when the line is valid
  UTF-8 (re-encoding its runes gives the line back) the cut falls between two whole
  characters of the line. A line of 10,000 ASCII characters becomes its first 500
  characters and the ellipsis.
\<close>

theorem truncateLine_prefix:
  "(length line \<le> maxLineCharCount \<longrightarrow> truncateLine spare line = Inr line)
   \<and> (maxLineCharCount < length line \<and> maxLineCharCount \<le> length (runes line) \<longrightarrow>
        truncateLine spare line
          = Inr (encodeRunes (take maxLineCharCount (runes line)) @ ellipsis)
        \<and> length (take maxLineCharCount (runes line)) = 500
        \<and> (encodeRunes (runes line) = line \<longrightarrow>
             line = encodeRunes (take maxLineCharCount (runes line))
                      @ encodeRunes (drop maxLineCharCount (runes line))))
   \<and> truncateLine spare (replicate 10000 (CHR ''a'')) = Inr (replicate 500 (CHR ''a'') @ ellipsis)"
proof (intro conjI impI)
  show "truncateLine spare line = Inr line" if "length line \<le> maxLineCharCount"
    using that by (rule truncateLine_short)
next
  assume h: "maxLineCharCount < length line \<and> maxLineCharCount \<le> length (runes line)"
  then show "truncateLine spare line
      = Inr (encodeRunes (take maxLineCharCount (runes line)) @ ellipsis)"
    by (simp add: truncateLine_long)
  show "length (take maxLineCharCount (runes line)) = 500"
    using h by (simp add: maxLineCharCount_def)
  show "line = encodeRunes (take maxLineCharCount (runes line))
                 @ encodeRunes (drop maxLineCharCount (runes line))"
    if "encodeRunes (runes line) = line"
    using that encodeRunes_append [of "take maxLineCharCount (runes line)"
        "drop maxLineCharCount (runes line)"] by simp
next
  show "truncateLine spare (replicate 10000 (CHR ''a'')) = Inr (replicate 500 (CHR ''a'') @ ellipsis)"
    by (simp add: truncateLine_ascii maxLineCharCount_def)
qed

theorem truncateLine_prefix_witness:
  "truncateLine exactFit multiByteLine
     = Inr (concat (replicate 500 [CHR 0xC3, CHR 0xA9]) @ ellipsis)
   \<and> multiByteLine = concat (replicate 500 [CHR 0xC3, CHR 0xA9]) @ ''x''
   \<and> truncateLine exactFit ''short'' = Inr ''short''"
proof -
  have x: "encodeRunes [0x78] = ''x''"
    by (simp add: encodeRunes_def encodeRune_def char_of_def bit_Suc_0_iff)
  have "encodeRunes (runes multiByteLine) = concat (replicate 500 [CHR 0xC3, CHR 0xA9]) @ ''x''"
    unfolding runes_multiByteLine encodeRunes_append encodeRunes_e_acute x ..
  then have valid: "encodeRunes (runes multiByteLine) = multiByteLine"
    by (simp only: multiByteLine_def)
  have long: "maxLineCharCount < length multiByteLine \<and> maxLineCharCount \<le> length (runes multiByteLine)"
    by (simp add: length_multiByteLine runes_multiByteLine maxLineCharCount_def)
  have short: "length ''short'' \<le> maxLineCharCount"
    by (simp add: maxLineCharCount_def)
  from truncateLine_prefix [of multiByteLine exactFit] valid long
  have "truncateLine exactFit multiByteLine
          = Inr (encodeRunes (take maxLineCharCount (runes multiByteLine)) @ ellipsis)"
    by blast
  moreover have "encodeRunes (take maxLineCharCount (runes multiByteLine))
                   = concat (replicate 500 [CHR 0xC3, CHR 0xA9])"
    by (simp add: runes_multiByteLine maxLineCharCount_def encodeRunes_e_acute)
  moreover from truncateLine_prefix [of "''short''" exactFit] short
  have "truncateLine exactFit ''short'' = Inr ''short''" by blast
  ultimately show ?thesis by (simp add: multiByteLine_def)
qed

text \<open>
  C2. The line \<open>shortRuneLine\<close> is valid UTF-8 of 606 bytes and 306 runes and holds the
  flag key between delimiters. \<open>truncateLine\<close> takes the path of long lines and slices
  500 elements from a rune slice of length 306; with a capacity below 500 this is a
  panic, which \<open>linesIfMatch\<close>, \<open>aggregateHunksForFlag\<close> and \<open>toHunks\<close> pass on.
\<close>

theorem toHunks_panics_on_short_rune_line:
  "length shortRuneLine = 606 \<and> length (runes shortRuneLine) = 306
   \<and> truncateLine exactFit shortRuneLine = Inl SliceBoundsOutOfRange
   \<and> toHunks exactFit \<lparr>path = ''main.go'', lines = [shortRuneLine]\<rparr> ''proj'' [(''flag'', [])] 0
        quoteDelimiters = Inl SliceBoundsOutOfRange"
  by (simp add: length_shortRuneLine runes_shortRuneLine truncateLine_shortRuneLine toHunks_def
      aggregate_single linesIfMatch_single match_shortRuneLine)

subsection \<open>The aliases of a hunk\<close>

text \<open>
  C3. Both aliases \<open>alpha\<close> and \<open>beta\<close> occur in the line \<open>alpha beta\<close>, and the
  hunk that \<open>linesIfMatch\<close> returns lists only the last of them: each round of the loop
  over the matched aliases assigns a one-element list.
\<close>

theorem linesIfMatch_keeps_last_alias:
  "Contains ''alpha beta'' ''alpha'' \<and> Contains ''alpha beta'' ''beta''
   \<and> linesIfMatch spare [''alpha beta''] ''proj'' ''flag'' ''alpha beta'' [''alpha'', ''beta''] 0 0
        quoteDelimiters
      = Inr ([''alpha beta''],
          Some \<lparr>ProjKey = ''proj'', FlagKey = ''flag'', StartingLineNumber = 1,
            Lines = ''alpha beta'', Aliases = [''beta'']\<rparr>)"
proof -
  have a: "Contains ''alpha beta'' ''alpha''" and b: "Contains ''alpha beta'' ''beta''"
    by simp_all
  have t: "truncateLine spare ''alpha beta'' = Inr ''alpha beta''"
    by (simp add: truncateLine_short maxLineCharCount_def)
  show ?thesis
    using a b by (simp add: linesIfMatch_single t del: Contains.simps)
qed

subsection \<open>Matching, truncation and the lines of the file\<close>

text \<open>
  The line \<open>longLine\<close> has 506 bytes; its first 500 characters are the letter
  \<open>a\<close>, and the flag key stands between delimiters after them. As the only line of a
  file it is matched as it is read, before its truncation: the aggregation returns a hunk,
  and the text of the hunk, the truncated line, no longer holds the flag key.
\<close>

lemma longLine_single_hunk:
  "length longLine = 506
   \<and> take 500 longLine = replicate 500 (CHR ''a'')
   \<and> matchDelimiters longLine ''flag'' quoteDelimiters
   \<and> aggregateHunksForFlag spare [longLine] ''proj'' ''flag'' [] 0 quoteDelimiters
       = Inr ([truncatedLongLine],
              [\<lparr>ProjKey = ''proj'', FlagKey = ''flag'', StartingLineNumber = 1,
                 Lines = truncatedLongLine, Aliases = []\<rparr>])
   \<and> \<not> Contains truncatedLongLine ''flag''"
proof -
  have "length longLine = 506" and "take 500 longLine = replicate 500 (CHR ''a'')"
    by (simp_all add: longLine_def)
  moreover have "aggregateHunksForFlag spare [longLine] ''proj'' ''flag'' [] 0 quoteDelimiters
       = Inr ([truncatedLongLine],
              [\<lparr>ProjKey = ''proj'', FlagKey = ''flag'', StartingLineNumber = 1,
                 Lines = truncatedLongLine, Aliases = []\<rparr>])"
    by (simp add: aggregate_single linesIfMatch_single match_longLine truncateLine_longLine)
  ultimately show ?thesis
    using match_longLine flag_not_in_truncatedLongLine by blast
qed

lemma linesIfMatch_window:
  assumes "isMatch l k as d" and "contextWindow ls i c = Inr (s, n)"
    and "truncateContext spare n (nat s) ls = Inr ls'"
  shows "linesIfMatch spare ls p k l as i c d =
     Inr (ls', Some \<lparr>ProjKey = p, FlagKey = k, StartingLineNumber = s + 1,
                   Lines = joinNL (take n (drop (nat s) ls')),
                   Aliases = foldl (\<lambda>acc alias. [alias]) []
                     (filter (\<lambda>alias. Contains l alias) as)\<rparr>)"
  using assms by (simp add: linesIfMatch_def isMatch_def Let_def)

lemma isMatch_quotedFlag: "isMatch quotedFlag ''flag'' [] quoteDelimiters"
  using isMatch_quoted_flag by (simp add: quotedFlag_def)

lemma isMatch_longLine: "isMatch longLine ''flag'' [] quoteDelimiters"
  using match_longLine by (simp add: isMatch_def)

lemma truncateLine_quotedFlag: "truncateLine spare quotedFlag = Inr quotedFlag"
  by (simp add: truncateLine_short quotedFlag_def maxLineCharCount_def)

lemma truncateLine_letter: "truncateLine spare [c] = Inr [c]"
  by (simp add: truncateLine_short maxLineCharCount_def)

lemma no_match_letters:
  "linesIfMatch spare ls p ''flag'' ''p'' [] i c d = Inr (ls, None)"
  "linesIfMatch spare ls p ''flag'' ''x'' [] i c d = Inr (ls, None)"
  "linesIfMatch spare ls p ''flag'' ''y'' [] i c d = Inr (ls, None)"
  "linesIfMatch spare ls p ''flag'' truncatedLongLine [] i c d = Inr (ls, None)"
  using matchDelimiters_needs_key [of "''p''" "''flag''" d]
    matchDelimiters_needs_key [of "''x''" "''flag''" d]
    matchDelimiters_needs_key [of "''y''" "''flag''" d]
    no_match_truncatedLongLine [of d]
  by (auto simp: linesIfMatch_def)

lemma overwritten_first_window:
  "linesIfMatch spare [quotedFlag, longLine, ''x'', ''y''] ''proj'' ''flag'' quotedFlag [] 0 1
      quoteDelimiters
   = Inr ([quotedFlag, truncatedLongLine, ''x'', ''y''],
       Some \<lparr>ProjKey = ''proj'', FlagKey = ''flag'', StartingLineNumber = 1,
              Lines = joinNL [quotedFlag, truncatedLongLine], Aliases = []\<rparr>)"
proof -
  have w: "contextWindow [quotedFlag, longLine, ''x'', ''y''] 0 1 = Inr (0, 2)"
    by (simp add: contextWindow_def)
  have t: "truncateContext spare 2 (nat 0) [quotedFlag, longLine, ''x'', ''y'']
      = Inr [quotedFlag, truncatedLongLine, ''x'', ''y'']"
    by (simp add: numeral_2_eq_2 truncateLine_quotedFlag truncateLine_longLine)
  show ?thesis
    using linesIfMatch_window [OF isMatch_quotedFlag w t, of "''proj''"] by simp
qed

lemma fresh_second_window:
  "linesIfMatch spare [''p'', longLine, ''x'', ''y''] ''proj'' ''flag'' longLine [] 1 1
      quoteDelimiters
   = Inr ([''p'', truncatedLongLine, ''x'', ''y''],
       Some \<lparr>ProjKey = ''proj'', FlagKey = ''flag'', StartingLineNumber = 1,
              Lines = joinNL [''p'', truncatedLongLine, ''x''], Aliases = []\<rparr>)"
proof -
  have w: "contextWindow [''p'', longLine, ''x'', ''y''] 1 1 = Inr (0, 3)"
    by (simp add: contextWindow_def)
  have t: "truncateContext spare 3 (nat 0) [''p'', longLine, ''x'', ''y'']
      = Inr [''p'', truncatedLongLine, ''x'', ''y'']"
    by (simp add: numeral_3_eq_3 truncateLine_letter truncateLine_longLine)
  show ?thesis
    using linesIfMatch_window [OF isMatch_longLine w t, of "''proj''"] by simp
qed

text \<open>
  C10. A line is matched as the loop of the aggregator reads it from the file's lines, and
  a window of an earlier match may have overwritten it with its truncation by then. The
  line \<open>longLine\<close> holds the flag key between delimiters and its truncation does not.
  As the second of four lines after a line without a match it is matched in its original
  form, and the hunk holds the lines 1 to 3. After a first line that matches, with one
  line of context, the window of the first line has overwritten it before it is read: it
  is not matched, and the hunk holds the lines 1 and 2 only.
\<close>

theorem overwritten_line_not_matched:
  "matchDelimiters longLine ''flag'' quoteDelimiters
   \<and> \<not> matchDelimiters truncatedLongLine ''flag'' quoteDelimiters
   \<and> aggregateHunksForFlag spare [''p'', longLine, ''x'', ''y''] ''proj'' ''flag'' [] 1
        quoteDelimiters
      = Inr ([''p'', truncatedLongLine, ''x'', ''y''],
          [\<lparr>ProjKey = ''proj'', FlagKey = ''flag'', StartingLineNumber = 1,
             Lines = joinNL [''p'', truncatedLongLine, ''x''], Aliases = []\<rparr>])
   \<and> aggregateHunksForFlag spare [quotedFlag, longLine, ''x'', ''y''] ''proj'' ''flag'' [] 1
        quoteDelimiters
      = Inr ([quotedFlag, truncatedLongLine, ''x'', ''y''],
          [\<lparr>ProjKey = ''proj'', FlagKey = ''flag'', StartingLineNumber = 1,
             Lines = joinNL [quotedFlag, truncatedLongLine], Aliases = []\<rparr>])"
proof -
  have a: "aggregateHunksForFlag spare [''p'', longLine, ''x'', ''y''] ''proj'' ''flag'' [] 1
        quoteDelimiters
      = Inr ([''p'', truncatedLongLine, ''x'', ''y''],
          [\<lparr>ProjKey = ''proj'', FlagKey = ''flag'', StartingLineNumber = 1,
             Lines = joinNL [''p'', truncatedLongLine, ''x''], Aliases = []\<rparr>])"
    by (simp add: aggregateHunksForFlag_def no_match_letters fresh_second_window appendMatch_Nil
        del: joinNL.simps)
  have b: "aggregateHunksForFlag spare [quotedFlag, longLine, ''x'', ''y''] ''proj'' ''flag'' [] 1
        quoteDelimiters
      = Inr ([quotedFlag, truncatedLongLine, ''x'', ''y''],
          [\<lparr>ProjKey = ''proj'', FlagKey = ''flag'', StartingLineNumber = 1,
             Lines = joinNL [quotedFlag, truncatedLongLine], Aliases = []\<rparr>])"
    by (simp add: aggregateHunksForFlag_def no_match_letters overwritten_first_window
        appendMatch_Nil del: joinNL.simps)
  from a b match_longLine no_match_truncatedLongLine [of quoteDelimiters]
  show ?thesis by blast
qed

text \<open>
  C9. Processing the one-line file \<open>[longLine]\<close> leaves the truncated line in the
  file's lines: the slice \<open>context\<close> shares the backing array of \<open>f.lines\<close>, and
  the truncation loop assigns to its elements. What a later key finds therefore depends
  on the order in which the map of aliases is ranged over: with the key \<open>legacy\<close>
  (alias \<open>aaa\<close>) first, the key \<open>flag\<close> is matched against the truncated line and
  finds nothing; with \<open>flag\<close> first, both keys give a hunk.
\<close>

theorem toHunks_overwrites_lines:
  "toHunks spare \<lparr>path = ''main.go'', lines = [longLine]\<rparr> ''proj'' [(''flag'', [])] 0
      quoteDelimiters
     = Inr ([truncatedLongLine],
         Some \<lparr>Path = ''main.go'',
           Hunks = [\<lparr>ProjKey = ''proj'', FlagKey = ''flag'', StartingLineNumber = 1,
                      Lines = truncatedLongLine, Aliases = []\<rparr>]\<rparr>)
   \<and> truncatedLongLine \<noteq> longLine
   \<and> toHunks spare \<lparr>path = ''main.go'', lines = [longLine]\<rparr> ''proj''
        [(''legacy'', [''aaa'']), (''flag'', [])] 0 quoteDelimiters
     = Inr ([truncatedLongLine],
         Some \<lparr>Path = ''main.go'',
           Hunks = [\<lparr>ProjKey = ''proj'', FlagKey = ''legacy'', StartingLineNumber = 1,
                      Lines = truncatedLongLine, Aliases = [''aaa'']\<rparr>]\<rparr>)
   \<and> toHunks spare \<lparr>path = ''main.go'', lines = [longLine]\<rparr> ''proj''
        [(''flag'', []), (''legacy'', [''aaa''])] 0 quoteDelimiters
     = Inr ([truncatedLongLine],
         Some \<lparr>Path = ''main.go'',
           Hunks = [\<lparr>ProjKey = ''proj'', FlagKey = ''flag'', StartingLineNumber = 1,
                      Lines = truncatedLongLine, Aliases = []\<rparr>,
                    \<lparr>ProjKey = ''proj'', FlagKey = ''legacy'', StartingLineNumber = 1,
                      Lines = truncatedLongLine, Aliases = [''aaa'']\<rparr>]\<rparr>)"
proof -
  have ne: "truncatedLongLine \<noteq> longLine"
  proof
    assume "truncatedLongLine = longLine"
    then have "length truncatedLongLine = length longLine" by simp
    then show False by (simp add: truncatedLongLine_def longLine_def ellipsis_def)
  qed
  have flag1: "aggregateHunksForFlag spare [longLine] ''proj'' ''flag'' [] 0 quoteDelimiters
       = Inr ([truncatedLongLine],
              [\<lparr>ProjKey = ''proj'', FlagKey = ''flag'', StartingLineNumber = 1,
                 Lines = truncatedLongLine, Aliases = []\<rparr>])"
    by (simp add: aggregate_single linesIfMatch_single match_longLine truncateLine_longLine)
  have flag2: "aggregateHunksForFlag spare [truncatedLongLine] ''proj'' ''flag'' [] 0 quoteDelimiters
       = Inr ([truncatedLongLine], [])"
    by (simp add: aggregate_single linesIfMatch_no_match no_match_truncatedLongLine)
  have legacy1: "aggregateHunksForFlag spare [longLine] ''proj'' ''legacy'' [''aaa''] 0 quoteDelimiters
       = Inr ([truncatedLongLine],
              [\<lparr>ProjKey = ''proj'', FlagKey = ''legacy'', StartingLineNumber = 1,
                 Lines = truncatedLongLine, Aliases = [''aaa'']\<rparr>])"
    by (simp add: aggregate_single linesIfMatch_single aaa_in_lines truncateLine_longLine
        del: Contains.simps)
  have legacy2: "aggregateHunksForFlag spare [truncatedLongLine] ''proj'' ''legacy'' [''aaa''] 0 quoteDelimiters
       = Inr ([truncatedLongLine],
              [\<lparr>ProjKey = ''proj'', FlagKey = ''legacy'', StartingLineNumber = 1,
                 Lines = truncatedLongLine, Aliases = [''aaa'']\<rparr>])"
    by (simp add: aggregate_single linesIfMatch_single aaa_in_lines truncateLine_truncatedLongLine
        del: Contains.simps)
  show ?thesis
    by (simp add: toHunks_def flag1 flag2 legacy1 legacy2 ne)
qed

subsection \<open>Aggregation without context\<close>

lemma mergeHunks_negative:
  "c < 0 \<Longrightarrow> StartingLineNumber a \<le> StartingLineNumber b \<Longrightarrow> mergeHunks a b c = [a, b]"
  by (simp add: mergeHunks_def Let_def)

lemma appendMatch_negative:
  assumes "c < 0" and "hs = [] \<or> StartingLineNumber (last hs) \<le> StartingLineNumber m"
  shows "appendMatch hs m c = hs @ [m]"
proof (cases "hs \<noteq> [] \<and> 0 \<le> Overlap (last hs) m")
  case True
  then have "appendMatch hs m c = butlast hs @ [last hs, m]"
    using assms by (simp add: appendMatch_def mergeHunks_negative)
  also have "\<dots> = (butlast hs @ [last hs]) @ [m]" by simp
  also have "\<dots> = hs @ [m]" using True by simp
  finally show ?thesis .
next
  case False
  then show ?thesis by (auto simp: appendMatch_def)
qed

lemma aggregateFrom_negative:
  assumes "c < 0" and "hs = [] \<or> StartingLineNumber (last hs) \<le> int i"
  shows "aggregateFrom spare p k as c d n i ls hs =
     Inr (ls, hs @ map (\<lambda>j. \<lparr>ProjKey = p, FlagKey = k, StartingLineNumber = int j + 1, Lines = [],
                    Aliases = foldl (\<lambda>acc alias. [alias]) []
                      (filter (\<lambda>alias. Contains (ls ! j) alias) as)\<rparr>)
                (filter (\<lambda>j. isMatch (ls ! j) k as d) [i..<i + n]))"
  using assms
proof (induction n arbitrary: i hs)
  case 0
  then show ?case by simp
next
  case (Suc n)
  have upt: "[i..<Suc (i + n)] = i # [Suc i..<Suc (i + n)]"
    by (simp add: upt_conv_Cons)
  show ?case
  proof (cases "isMatch (ls ! i) k as d")
    case False
    have "hs = [] \<or> StartingLineNumber (last hs) \<le> int (Suc i)"
      using Suc.prems(2) by auto
    from Suc.IH [OF Suc.prems(1) this] False show ?thesis
      by (simp add: linesIfMatch_not_isMatch upt del: upt_Suc)
  next
    case True
    let ?m = "\<lparr>ProjKey = p, FlagKey = k, StartingLineNumber = int i + 1, Lines = [],
                Aliases = foldl (\<lambda>acc alias. [alias]) []
                  (filter (\<lambda>alias. Contains (ls ! i) alias) as)\<rparr>"
    have app: "appendMatch hs ?m c = hs @ [?m]"
      using Suc.prems by (intro appendMatch_negative) auto
    have "hs @ [?m] = [] \<or> StartingLineNumber (last (hs @ [?m])) \<le> int (Suc i)"
      by simp
    from Suc.IH [OF Suc.prems(1) this] True show ?thesis
      by (simp add: linesIfMatch_negative [OF Suc.prems(1)] app upt del: upt_Suc)
  qed
qed

text \<open>
  C6. With a negative context count the aggregation never fails and leaves the lines as
  they are; it returns one hunk for every matching line, in the order of the lines, each
  with the number of its line as starting line and an empty text. Matches on neighbouring
  lines stay separate hunks: \<open>mergeHunks\<close> returns both of its arguments.
\<close>

theorem aggregate_without_context:
  assumes "ctxLines < 0"
  shows "aggregateHunksForFlag spare ls projKey flagKey flagAliases ctxLines delimiters =
     Inr (ls,
       map (\<lambda>i. \<lparr>ProjKey = projKey, FlagKey = flagKey, StartingLineNumber = int i + 1,
                 Lines = [],
                 Aliases = foldl (\<lambda>acc alias. [alias]) []
                   (filter (\<lambda>alias. Contains (ls ! i) alias) flagAliases)\<rparr>)
         (filter (\<lambda>i. isMatch (ls ! i) flagKey flagAliases delimiters) [0..<length ls]))"
  using aggregateFrom_negative [OF assms, of "[]" 0 spare projKey flagKey flagAliases delimiters
      "length ls" ls]
  by (simp add: aggregateHunksForFlag_def)

theorem aggregate_without_context_witness:
  "aggregateHunksForFlag exactFit
     [[CHR 0x27] @ ''flag'' @ [CHR 0x27], [CHR 0x27] @ ''flag'' @ [CHR 0x27], ''x'']
     ''proj'' ''flag'' [] (- 1) quoteDelimiters
   = Inr ([[CHR 0x27] @ ''flag'' @ [CHR 0x27], [CHR 0x27] @ ''flag'' @ [CHR 0x27], ''x''],
       [\<lparr>ProjKey = ''proj'', FlagKey = ''flag'', StartingLineNumber = 1, Lines = [],
          Aliases = []\<rparr>,
        \<lparr>ProjKey = ''proj'', FlagKey = ''flag'', StartingLineNumber = 2, Lines = [],
          Aliases = []\<rparr>])"
proof -
  have neg: "(- 1::int) < 0" by simp
  have x: "\<not> isMatch ''x'' ''flag'' [] quoteDelimiters"
    by (simp add: isMatch_no_key)
  have upt: "[0..<3] = [0, 1, 2]" by (simp add: upt_rec)
  show ?thesis
    using isMatch_quoted_flag x
    by (simp add: aggregate_without_context [OF neg] upt)
qed

subsection \<open>Merging two excerpts of the same lines\<close>

lemma mergeHunks_excerpts:
  assumes nl: "\<forall>l\<in>set ls. newline \<notin> set l" and ctx: "0 \<le> ctxLines"
    and a: "Lines a = joinNL (take na (drop sa ls))" "StartingLineNumber a = int sa + 1"
      "0 < na" "sa + na \<le> length ls"
    and b: "Lines b = joinNL (take nb (drop sb ls))" "StartingLineNumber b = int sb + 1"
      "0 < nb" "sb + nb \<le> length ls"
    and order: "sa \<le> sb" and touch: "sb \<le> sa + na"
  shows "Overlap a b = int (sa + na - sb)"
    and "mergeHunks a b ctxLines =
      [if sb + nb \<le> sa + na then a
       else a\<lparr>Lines := joinNL (take (sb + nb - sa) (drop sa ls)),
               Aliases := Dedupe (Aliases a @ Aliases b)\<rparr>]"
proof -
  have sa: "splitNL (Lines a) = take na (drop sa ls)"
    unfolding a(1) using nl a(3,4) by (rule splitNL_excerpt)
  have sb: "splitNL (Lines b) = take nb (drop sb ls)"
    unfolding b(1) using nl b(3,4) by (rule splitNL_excerpt)
  have na: "NumLines a = na" and nb: "length (splitNL (Lines b)) = nb"
    using a(4) b(4) by (simp_all add: NumLines_def sa sb)
  show ov: "Overlap a b = int (sa + na - sb)"
    using touch by (simp add: Overlap_def na a(2) b(2))
  have swap: "\<not> StartingLineNumber a > StartingLineNumber b"
    using order by (simp add: a(2) b(2))
  show "mergeHunks a b ctxLines =
      [if sb + nb \<le> sa + na then a
       else a\<lparr>Lines := joinNL (take (sb + nb - sa) (drop sa ls)),
               Aliases := Dedupe (Aliases a @ Aliases b)\<rparr>]"
  proof (cases "sb + nb \<le> sa + na")
    case True
    then have "int nb \<le> int (sa + na - sb)" using touch by linarith
    then show ?thesis
      using True ctx swap by (simp add: mergeHunks_def Let_def ov nb)
  next
    case False
    then have lt: "\<not> int nb \<le> int (sa + na - sb)" using touch by linarith
    have "splitNL (Lines a) @ drop (sa + na - sb) (splitNL (Lines b))
        = take (sb + nb - sa) (drop sa ls)"
      unfolding sa sb using order touch False by (intro excerpt_append) simp_all
    then show ?thesis
      using False ctx swap lt by (simp add: mergeHunks_def Let_def ov nb)
  qed
qed

lemma appendMatch_excerpts:
  assumes "\<forall>l\<in>set ls. newline \<notin> set l" and "0 \<le> ctxLines" and "hunksForFlag \<noteq> []"
    and "Lines (last hunksForFlag) = joinNL (take na (drop sa ls))"
      "StartingLineNumber (last hunksForFlag) = int sa + 1" "0 < na" "sa + na \<le> length ls"
    and "Lines match = joinNL (take nb (drop sb ls))" "StartingLineNumber match = int sb + 1"
      "0 < nb" "sb + nb \<le> length ls"
    and "sa \<le> sb" and "sb \<le> sa + na"
  shows "appendMatch hunksForFlag match ctxLines =
     butlast hunksForFlag @
       [if sb + nb \<le> sa + na then last hunksForFlag
        else (last hunksForFlag)
               \<lparr>Lines := joinNL (take (sb + nb - sa) (drop sa ls)),
                Aliases := Dedupe (Aliases (last hunksForFlag) @ Aliases match)\<rparr>]"
  using mergeHunks_excerpts [OF assms(1,2,4-13)] assms(3)
  by (simp add: appendMatch_def)

lemma appendMatch_apart:
  assumes "\<forall>l\<in>set ls. newline \<notin> set l" and "hunksForFlag \<noteq> []"
    and "Lines (last hunksForFlag) = joinNL (take na (drop sa ls))"
      "StartingLineNumber (last hunksForFlag) = int sa + 1" "0 < na" "sa + na \<le> length ls"
    and "StartingLineNumber match = int sb + 1" and "sa + na < sb"
  shows "appendMatch hunksForFlag match ctxLines = hunksForFlag @ [match]"
proof -
  have "splitNL (Lines (last hunksForFlag)) = take na (drop sa ls)"
    unfolding assms(3) using assms(1,5,6) by (rule splitNL_excerpt)
  then have "NumLines (last hunksForFlag) = na"
    using assms(6) by (simp add: NumLines_def)
  then have "Overlap (last hunksForFlag) match < 0"
    using assms(8) by (simp add: Overlap_def assms(4,7))
  then show ?thesis by (simp add: appendMatch_def)
qed

lemma tenLines_context_1:
  "aggregateHunksForFlag spare tenLines ''proj'' ''flag'' [] 1 quoteDelimiters
     = Inr (tenLines,
         [\<lparr>ProjKey = ''proj'', FlagKey = ''flag'', StartingLineNumber = 4,
            Lines = joinNL (take 5 (drop 3 tenLines)), Aliases = []\<rparr>])"
proof -
  let ?a = "\<lparr>ProjKey = ''proj'', FlagKey = ''flag'', StartingLineNumber = 4,
            Lines = joinNL (take 3 (drop 3 tenLines)), Aliases = []\<rparr>"
  let ?b = "\<lparr>ProjKey = ''proj'', FlagKey = ''flag'', StartingLineNumber = 6,
            Lines = joinNL (take 3 (drop 5 tenLines)), Aliases = []\<rparr>"
  have a: "windowHunk tenLines ''proj'' ''flag'' [] 1 4 = ?a"
    and b: "windowHunk tenLines ''proj'' ''flag'' [] 1 6 = ?b"
    by (simp_all add: windowHunk_def length_tenLines)
  have "appendMatch [?a] ?b 1 =
      butlast [?a] @ [if (5::nat) + 3 \<le> 3 + 3 then last [?a]
        else (last [?a])\<lparr>Lines := joinNL (take (5 + 3 - 3) (drop 3 tenLines)),
               Aliases := Dedupe (Aliases (last [?a]) @ Aliases ?b)\<rparr>]"
    by (rule appendMatch_excerpts [OF tenLines_no_newline]) (simp_all add: length_tenLines)
  then have "appendMatch [?a] ?b 1 =
      [\<lparr>ProjKey = ''proj'', FlagKey = ''flag'', StartingLineNumber = 4,
            Lines = joinNL (take 5 (drop 3 tenLines)), Aliases = []\<rparr>]"
    by (simp add: Dedupe_def)
  then show ?thesis
    by (simp add: tenLines_fold a b appendMatch_Nil)
qed

lemma tenLines_context_0:
  "aggregateHunksForFlag spare tenLines ''proj'' ''flag'' [] 0 quoteDelimiters
     = Inr (tenLines,
         [\<lparr>ProjKey = ''proj'', FlagKey = ''flag'', StartingLineNumber = 5,
            Lines = joinNL (take 1 (drop 4 tenLines)), Aliases = []\<rparr>,
          \<lparr>ProjKey = ''proj'', FlagKey = ''flag'', StartingLineNumber = 7,
            Lines = joinNL (take 1 (drop 6 tenLines)), Aliases = []\<rparr>])"
proof -
  let ?a = "\<lparr>ProjKey = ''proj'', FlagKey = ''flag'', StartingLineNumber = 5,
            Lines = joinNL (take 1 (drop 4 tenLines)), Aliases = []\<rparr>"
  let ?b = "\<lparr>ProjKey = ''proj'', FlagKey = ''flag'', StartingLineNumber = 7,
            Lines = joinNL (take 1 (drop 6 tenLines)), Aliases = []\<rparr>"
  have a: "windowHunk tenLines ''proj'' ''flag'' [] 0 4 = ?a"
    and b: "windowHunk tenLines ''proj'' ''flag'' [] 0 6 = ?b"
    by (simp_all add: windowHunk_def length_tenLines)
  have "appendMatch [?a] ?b 0 = [?a] @ [?b]"
    by (rule appendMatch_apart [OF tenLines_no_newline, where sa = 4 and na = 1 and sb = 6])
      (simp_all add: length_tenLines)
  then show ?thesis
    by (simp add: tenLines_fold a b appendMatch_Nil)
qed

text \<open>
  C1. Let the last hunk of the flag key hold the lines \<open>sa + 1\<close> to \<open>sa + na\<close> of
  the file and the new match the lines \<open>sb + 1\<close> to \<open>sb + nb\<close>, where the match starts
  no earlier than the hunk and no later than the line after its last line (they overlap or
  are adjacent), and let the context count be non-negative. Then the loop of the
  aggregator replaces the last hunk by one hunk: the last hunk itself when the match
  brings no new line, and otherwise a hunk with the same starting line whose text is the
  lines \<open>sa + 1\<close> to \<open>sb + nb\<close> of the file, each once, and whose aliases are the
  deduplicated aliases of both. On the ten lines of the example, with matches on lines 5
  and 7 and one line of context, the aggregator returns one hunk that starts at line 4 and
  holds the lines 4 to 8.
\<close>

theorem appendMatch_merges_touching_excerpts:
  assumes "\<forall>l\<in>set ls. newline \<notin> set l" and "0 \<le> ctxLines" and "hunksForFlag \<noteq> []"
    and "Lines (last hunksForFlag) = joinNL (take na (drop sa ls))"
      "StartingLineNumber (last hunksForFlag) = int sa + 1" "0 < na" "sa + na \<le> length ls"
    and "Lines match = joinNL (take nb (drop sb ls))" "StartingLineNumber match = int sb + 1"
      "0 < nb" "sb + nb \<le> length ls"
    and "sa \<le> sb" and "sb \<le> sa + na"
  shows "appendMatch hunksForFlag match ctxLines =
       butlast hunksForFlag @
         [if sb + nb \<le> sa + na then last hunksForFlag
          else (last hunksForFlag)
                 \<lparr>Lines := joinNL (take (sb + nb - sa) (drop sa ls)),
                  Aliases := Dedupe (Aliases (last hunksForFlag) @ Aliases match)\<rparr>]
     \<and> aggregateHunksForFlag spare tenLines ''proj'' ''flag'' [] 1 quoteDelimiters
       = Inr (tenLines,
           [\<lparr>ProjKey = ''proj'', FlagKey = ''flag'', StartingLineNumber = 4,
              Lines = joinNL (take 5 (drop 3 tenLines)), Aliases = []\<rparr>])"
  using appendMatch_excerpts [OF assms] tenLines_context_1 by simp

theorem appendMatch_merges_touching_excerpts_witness:
  "appendMatch
     [\<lparr>ProjKey = ''proj'', FlagKey = ''flag'', StartingLineNumber = 4,
        Lines = joinNL (take 3 (drop 3 tenLines)), Aliases = []\<rparr>]
     \<lparr>ProjKey = ''proj'', FlagKey = ''flag'', StartingLineNumber = 6,
        Lines = joinNL (take 3 (drop 5 tenLines)), Aliases = []\<rparr> 1
   = [\<lparr>ProjKey = ''proj'', FlagKey = ''flag'', StartingLineNumber = 4,
        Lines = joinNL (take 5 (drop 3 tenLines)), Aliases = []\<rparr>]
   \<and> appendMatch
     [\<lparr>ProjKey = ''proj'', FlagKey = ''flag'', StartingLineNumber = 1,
        Lines = joinNL (take 10 (drop 0 tenLines)), Aliases = []\<rparr>]
     \<lparr>ProjKey = ''proj'', FlagKey = ''flag'', StartingLineNumber = 3,
        Lines = joinNL (take 8 (drop 2 tenLines)), Aliases = []\<rparr> 20
   = [\<lparr>ProjKey = ''proj'', FlagKey = ''flag'', StartingLineNumber = 1,
        Lines = joinNL (take 10 (drop 0 tenLines)), Aliases = []\<rparr>]"
proof -
  let ?a = "\<lparr>ProjKey = ''proj'', FlagKey = ''flag'', StartingLineNumber = 4,
        Lines = joinNL (take 3 (drop 3 tenLines)), Aliases = []\<rparr>"
  let ?b = "\<lparr>ProjKey = ''proj'', FlagKey = ''flag'', StartingLineNumber = 6,
        Lines = joinNL (take 3 (drop 5 tenLines)), Aliases = []\<rparr>"
  let ?c = "\<lparr>ProjKey = ''proj'', FlagKey = ''flag'', StartingLineNumber = 1,
        Lines = joinNL (take 10 (drop 0 tenLines)), Aliases = []\<rparr>"
  let ?d = "\<lparr>ProjKey = ''proj'', FlagKey = ''flag'', StartingLineNumber = 3,
        Lines = joinNL (take 8 (drop 2 tenLines)), Aliases = []\<rparr>"
  have "appendMatch [?a] ?b 1 =
      butlast [?a] @ [if (5::nat) + 3 \<le> 3 + 3 then last [?a]
        else (last [?a])\<lparr>Lines := joinNL (take (5 + 3 - 3) (drop 3 tenLines)),
               Aliases := Dedupe (Aliases (last [?a]) @ Aliases ?b)\<rparr>]"
    using appendMatch_merges_touching_excerpts
      [of tenLines 1 "[?a]" 3 3 ?b 3 5 exactFit, OF tenLines_no_newline]
    by (simp add: length_tenLines)
  moreover have "appendMatch [?c] ?d 20 =
      butlast [?c] @ [if (2::nat) + 8 \<le> 0 + 10 then last [?c]
        else (last [?c])\<lparr>Lines := joinNL (take (2 + 8 - 0) (drop 0 tenLines)),
               Aliases := Dedupe (Aliases (last [?c]) @ Aliases ?d)\<rparr>]"
    using appendMatch_merges_touching_excerpts
      [of tenLines 20 "[?c]" 10 0 ?d 8 2 exactFit, OF tenLines_no_newline]
    by (simp add: length_tenLines)
  ultimately show ?thesis by (simp add: Dedupe_def)
qed

subsection \<open>Order of the hunks of one flag key\<close>

lemma NumLines_pos: "0 < NumLines h"
  using splitNL_nonempty [of "Lines h"] by (simp add: NumLines_def)

lemma mergeHunks_keeps_start:
  assumes "0 \<le> c" and "StartingLineNumber a \<le> StartingLineNumber m" and "0 \<le> Overlap a m"
  shows "\<exists>x. mergeHunks a m c = [x] \<and> StartingLineNumber x = StartingLineNumber a"
  using assms by (simp add: mergeHunks_def Let_def)

lemma liesBefore_start:
  "liesBefore h a \<Longrightarrow> StartingLineNumber x = StartingLineNumber a \<Longrightarrow> liesBefore h x"
  by (simp add: liesBefore_def)

lemma liesBefore_apart:
  "Overlap a m < 0 \<Longrightarrow> liesBefore a m"
  using NumLines_pos [of a] by (simp add: liesBefore_def Overlap_def)

lemma liesBefore_trans: "liesBefore h a \<Longrightarrow> liesBefore a m \<Longrightarrow> liesBefore h m"
  by (simp add: liesBefore_def)

lemma appendMatch_sorted:
  assumes "0 \<le> c" and "sorted_wrt liesBefore hs"
    and "\<forall>h\<in>set hs. StartingLineNumber h \<le> StartingLineNumber m"
  shows "sorted_wrt liesBefore (appendMatch hs m c)
     \<and> (\<forall>h\<in>set (appendMatch hs m c). StartingLineNumber h \<le> StartingLineNumber m)"
proof (cases hs rule: rev_cases)
  case Nil
  then show ?thesis by (simp add: appendMatch_def)
next
  case (snoc xs a)
  from assms(2) snoc have xs: "sorted_wrt liesBefore xs" and before: "\<forall>h\<in>set xs. liesBefore h a"
    by (simp_all add: sorted_wrt_append)
  from assms(3) snoc have am: "StartingLineNumber a \<le> StartingLineNumber m"
    and xsm: "\<forall>h\<in>set xs. StartingLineNumber h \<le> StartingLineNumber m"
    by simp_all
  show ?thesis
  proof (cases "0 \<le> Overlap a m")
    case True
    from mergeHunks_keeps_start [OF assms(1) am True]
    obtain x where x: "mergeHunks a m c = [x]" "StartingLineNumber x = StartingLineNumber a"
      by blast
    have "appendMatch hs m c = xs @ [x]"
      using True snoc x(1) by (simp add: appendMatch_def)
    moreover have "\<forall>h\<in>set xs. liesBefore h x"
      using before x(2) by (blast intro: liesBefore_start)
    ultimately show ?thesis
      using xs xsm am x(2) by (simp add: sorted_wrt_append)
  next
    case False
    then have app: "appendMatch hs m c = hs @ [m]"
      by (simp add: appendMatch_def snoc)
    from False have "liesBefore a m" by (intro liesBefore_apart) simp
    moreover from this before have "\<forall>h\<in>set xs. liesBefore h m"
      by (blast intro: liesBefore_trans)
    ultimately have "sorted_wrt liesBefore (hs @ [m])"
      using assms(2) snoc by (simp add: sorted_wrt_append)
    then show ?thesis using assms(3) by (simp add: app)
  qed
qed

lemma aggregateFrom_sorted:
  assumes "0 \<le> c"
    and "aggregateFrom spare p k as c d n i ls hs = Inr (ls', hs')"
    and "sorted_wrt liesBefore hs"
    and "\<forall>h\<in>set hs. StartingLineNumber h \<le> max 0 (int i - c) + 1"
  shows "sorted_wrt liesBefore hs'"
  using assms(2-4)
proof (induction n arbitrary: i ls hs)
  case 0
  then show ?case by simp
next
  case (Suc n)
  show ?case
  proof (cases "linesIfMatch spare ls p k (ls ! i) as (int i) c d")
    case (Inl e)
    with Suc.prems(1) show ?thesis by simp
  next
    case (Inr r)
    obtain ls1 om where r: "r = (ls1, om)" by (cases r)
    have mono: "max 0 (int i - c) + 1 \<le> max 0 (int (Suc i) - c) + 1" by simp
    show ?thesis
    proof (cases om)
      case None
      with Inr r Suc.prems(1)
      have "aggregateFrom spare p k as c d n (Suc i) ls1 hs = Inr (ls', hs')" by simp
      moreover have "\<forall>h\<in>set hs. StartingLineNumber h \<le> max 0 (int (Suc i) - c) + 1"
        using Suc.prems(3) mono by force
      ultimately show ?thesis using Suc.IH Suc.prems(2) by blast
    next
      case (Some m)
      with Inr r Suc.prems(1)
      have run: "aggregateFrom spare p k as c d n (Suc i) ls1 (appendMatch hs m c) = Inr (ls', hs')"
        by simp
      have start: "StartingLineNumber m = max 0 (int i - c) + 1"
        using linesIfMatch_start [OF assms(1)] Inr r Some by blast
      from appendMatch_sorted [OF assms(1) Suc.prems(2), of m] Suc.prems(3) start
      have s: "sorted_wrt liesBefore (appendMatch hs m c)"
        and b: "\<forall>h\<in>set (appendMatch hs m c). StartingLineNumber h \<le> max 0 (int i - c) + 1"
        by simp_all
      from b mono have "\<forall>h\<in>set (appendMatch hs m c).
          StartingLineNumber h \<le> max 0 (int (Suc i) - c) + 1"
        by force
      with run s show ?thesis using Suc.IH by blast
    qed
  qed
qed

lemma location_hunks_sorted:
  "sorted_wrt liesBefore
     (map (\<lambda>j. \<lparr>ProjKey = p, FlagKey = k, StartingLineNumber = int j + 1, Lines = [],
                 Aliases = f j\<rparr>) (filter P [0..<n]))"
proof -
  have "sorted_wrt (<) (filter P [0..<n])"
    by (intro sorted_wrt_filter) simp
  then have "sorted_wrt (\<lambda>i j. liesBefore
        \<lparr>ProjKey = p, FlagKey = k, StartingLineNumber = int i + 1, Lines = [], Aliases = f i\<rparr>
        \<lparr>ProjKey = p, FlagKey = k, StartingLineNumber = int j + 1, Lines = [], Aliases = f j\<rparr>)
      (filter P [0..<n])"
    by (rule sorted_wrt_mono_rel [rotated]) (simp add: liesBefore_def NumLines_def)
  then show ?thesis by (simp add: sorted_wrt_map)
qed

text \<open>
  C8. Whenever the aggregation for one flag key returns, each of its hunks lies before
  all later ones: the starting lines ascend, and the lines a hunk covers end before the
  next hunk starts.
\<close>

theorem aggregate_hunks_sorted_disjoint:
  assumes "aggregateHunksForFlag spare ls projKey flagKey flagAliases ctxLines delimiters
             = Inr (ls', hunks)"
  shows "sorted_wrt liesBefore hunks"
proof (cases "0 \<le> ctxLines")
  case True
  from assms have "aggregateFrom spare projKey flagKey flagAliases ctxLines delimiters
      (length ls) 0 ls [] = Inr (ls', hunks)"
    by (simp add: aggregateHunksForFlag_def)
  from aggregateFrom_sorted [OF True this] show ?thesis by simp
next
  case False
  then have neg: "ctxLines < 0" by simp
  have "aggregateFrom spare projKey flagKey flagAliases ctxLines delimiters (length ls) 0 ls []
      = Inr (ls', hunks)"
    using assms by (simp add: aggregateHunksForFlag_def)
  then have "hunks = map (\<lambda>j. \<lparr>ProjKey = projKey, FlagKey = flagKey,
        StartingLineNumber = int j + 1, Lines = [],
        Aliases = foldl (\<lambda>acc alias. [alias]) []
          (filter (\<lambda>alias. Contains (ls ! j) alias) flagAliases)\<rparr>)
      (filter (\<lambda>j. isMatch (ls ! j) flagKey flagAliases delimiters) [0..<length ls])"
    using aggregateFrom_negative [OF neg, of "[]" 0 spare projKey flagKey flagAliases delimiters
        "length ls" ls]
    by auto
  then show ?thesis by (simp only: location_hunks_sorted)
qed

theorem aggregate_hunks_sorted_disjoint_witness:
  "sorted_wrt liesBefore
     [\<lparr>ProjKey = ''proj'', FlagKey = ''flag'', StartingLineNumber = 5,
        Lines = joinNL (take 1 (drop 4 tenLines)), Aliases = []\<rparr>,
      \<lparr>ProjKey = ''proj'', FlagKey = ''flag'', StartingLineNumber = 7,
        Lines = joinNL (take 1 (drop 6 tenLines)), Aliases = []\<rparr>]"
  using aggregate_hunks_sorted_disjoint [OF tenLines_context_0 [of exactFit]] .

subsection \<open>The caps on the collected references\<close>

lemma hunkCount_Nil: "hunkCount [] = 0"
  by (simp add: hunkCount_def)

lemma hunkCount_Cons: "hunkCount (r # rs) = length (Hunks r) + hunkCount rs"
  by (simp add: hunkCount_def)

lemma hunkCount_replicate: "hunkCount (replicate n r) = n * length (Hunks r)"
  by (induction n) (simp_all add: hunkCount_Nil hunkCount_Cons)

lemma hunkCount_ones: "\<forall>r\<in>set rs. length (Hunks r) = 1 \<Longrightarrow> hunkCount rs = length rs"
  by (induction rs) (simp_all add: hunkCount_Nil hunkCount_Cons)

lemma collectReferences_stops:
  assumes "length ret < maxFileCount" and "tot \<le> maxHunkCount"
  shows "\<exists>k\<le>length rs. collectReferences rs ret tot = ret @ take k rs
           \<and> length ret + k \<le> maxFileCount
           \<and> (0 < k \<longrightarrow> tot + hunkCount (take (k - 1) rs) \<le> maxHunkCount)
           \<and> (k < length rs \<longrightarrow>
                length ret + k = maxFileCount \<or> maxHunkCount < tot + hunkCount (take k rs))"
  using assms
proof (induction rs arbitrary: ret tot)
  case Nil
  then show ?case by (simp add: hunkCount_Nil)
next
  case (Cons r rs)
  show ?case
  proof (cases "maxFileCount \<le> length (ret @ [r]) \<or> maxHunkCount < tot + length (Hunks r)")
    case True
    then have "collectReferences (r # rs) ret tot = ret @ take 1 (r # rs)"
      by auto
    moreover have "length ret + 1 \<le> maxFileCount" using Cons.prems by simp
    moreover have "tot + hunkCount (take (1 - 1) (r # rs)) \<le> maxHunkCount"
      using Cons.prems by (simp add: hunkCount_Nil)
    moreover have "length ret + 1 = maxFileCount \<or> maxHunkCount < tot + hunkCount (take 1 (r # rs))"
      using True Cons.prems by (auto simp: hunkCount_Nil hunkCount_Cons)
    ultimately show ?thesis
      by (intro exI [of _ 1]) simp
  next
    case False
    then have step: "collectReferences (r # rs) ret tot
        = collectReferences rs (ret @ [r]) (tot + length (Hunks r))"
      by auto
    from False have "length (ret @ [r]) < maxFileCount" "tot + length (Hunks r) \<le> maxHunkCount"
      by auto
    from Cons.IH [OF this] obtain k where k: "k \<le> length rs"
      "collectReferences rs (ret @ [r]) (tot + length (Hunks r)) = (ret @ [r]) @ take k rs"
      "length (ret @ [r]) + k \<le> maxFileCount"
      "0 < k \<longrightarrow> tot + length (Hunks r) + hunkCount (take (k - 1) rs) \<le> maxHunkCount"
      "k < length rs \<longrightarrow> length (ret @ [r]) + k = maxFileCount
          \<or> maxHunkCount < tot + length (Hunks r) + hunkCount (take k rs)"
      by blast
    have "tot + hunkCount (take (Suc k - 1) (r # rs)) \<le> maxHunkCount"
    proof (cases k)
      case 0
      then show ?thesis using False by (simp add: hunkCount_Nil)
    next
      case (Suc j)
      then show ?thesis using k(4) by (simp add: hunkCount_Cons)
    qed
    with k step show ?thesis
      by (intro exI [of _ "Suc k"]) (simp add: hunkCount_Cons add.assoc)
  qed
qed

text \<open>
  C7. The receiving loop of \<open>SearchForRefs\<close> returns a prefix of the references it is
  sent, never more than \<open>maxFileCount\<close> of them, and all but the last of the returned
  references hold at most \<open>maxHunkCount\<close> hunks together; when it stops before the end,
  either the file cap is reached or the hunks of the returned references exceed the hunk
  cap. So at least 10,000 references of one hunk each (20,000, say) give exactly 10,000
  entries, and fewer than 10,000 references that hold more than 25,000 hunks together
  (30,000, say) are accepted until the running total exceeds 25,000.
\<close>

theorem SearchForRefs_caps:
  "prefix (SearchForRefs refs) refs
   \<and> length (SearchForRefs refs) \<le> maxFileCount
   \<and> hunkCount (butlast (SearchForRefs refs)) \<le> maxHunkCount
   \<and> (SearchForRefs refs \<noteq> refs \<longrightarrow>
        length (SearchForRefs refs) = maxFileCount \<or> maxHunkCount < hunkCount (SearchForRefs refs))
   \<and> (maxFileCount \<le> length refs \<and> (\<forall>r\<in>set refs. length (Hunks r) = 1) \<longrightarrow>
        length (SearchForRefs refs) = maxFileCount)
   \<and> (length refs < maxFileCount \<and> maxHunkCount < hunkCount refs \<longrightarrow>
        maxHunkCount < hunkCount (SearchForRefs refs))"
proof -
  have "length ([]::ReferenceHunksRep list) < maxFileCount" "(0::nat) \<le> maxHunkCount"
    by (simp_all add: maxFileCount_def)
  from collectReferences_stops [OF this, of refs]
  obtain k where k: "k \<le> length refs" and res: "SearchForRefs refs = take k refs"
    and files: "k \<le> maxFileCount"
    and before: "0 < k \<longrightarrow> hunkCount (take (k - 1) refs) \<le> maxHunkCount"
    and stop: "k < length refs \<longrightarrow> k = maxFileCount \<or> maxHunkCount < hunkCount (take k refs)"
    by (auto simp: SearchForRefs_def)
  have 1: "prefix (SearchForRefs refs) refs"
    unfolding res by (rule take_is_prefix)
  have 2: "length (SearchForRefs refs) \<le> maxFileCount"
    using k files by (simp add: res)
  have bl: "butlast (take k refs) = take (k - 1) refs"
    using k by (simp add: butlast_take)
  have 3: "hunkCount (butlast (SearchForRefs refs)) \<le> maxHunkCount"
  proof (cases "k = 0")
    case True
    then show ?thesis by (simp add: res hunkCount_Nil)
  next
    case False
    then show ?thesis using before by (simp add: res bl)
  qed
  have 4: "length (SearchForRefs refs) = maxFileCount \<or> maxHunkCount < hunkCount (SearchForRefs refs)"
    if "SearchForRefs refs \<noteq> refs"
  proof -
    from that have "k < length refs" using k by (cases "k = length refs") (simp_all add: res)
    with stop show ?thesis by (auto simp: res)
  qed
  have 5: "length (SearchForRefs refs) = maxFileCount"
    if h: "maxFileCount \<le> length refs \<and> (\<forall>r\<in>set refs. length (Hunks r) = 1)"
  proof (cases "k < length refs")
    case True
    have "\<forall>r\<in>set (take k refs). length (Hunks r) = 1"
      using h by (auto dest: in_set_takeD)
    then have "hunkCount (take k refs) = k"
      using k by (simp add: hunkCount_ones)
    with stop True files have "k = maxFileCount"
      by (auto simp: maxFileCount_def maxHunkCount_def)
    then show ?thesis using k by (simp add: res)
  next
    case False
    with k h files show ?thesis by (simp add: res)
  qed
  have 6: "maxHunkCount < hunkCount (SearchForRefs refs)"
    if h: "length refs < maxFileCount \<and> maxHunkCount < hunkCount refs"
  proof (cases "k < length refs")
    case True
    with stop h show ?thesis by (auto simp: res)
  next
    case False
    with k h show ?thesis by (simp add: res)
  qed
  from 1 2 3 4 5 6 show ?thesis by blast
qed

theorem SearchForRefs_caps_witness:
  "length (SearchForRefs (replicate 20000 oneHunkRef)) = 10000
   \<and> hunkCount (replicate 3 bigRef) = 30000
   \<and> 25000 < hunkCount (SearchForRefs (replicate 3 bigRef))
   \<and> hunkCount (butlast (SearchForRefs (replicate 3 bigRef))) \<le> 25000"
proof -
  have a: "maxFileCount \<le> length (replicate 20000 oneHunkRef)
      \<and> (\<forall>r\<in>set (replicate 20000 oneHunkRef). length (Hunks r) = 1)"
    by (simp add: maxFileCount_def oneHunkRef_def)
  have c: "hunkCount (replicate 3 bigRef) = 30000"
    by (simp add: hunkCount_replicate bigRef_def)
  have b: "length (replicate 3 bigRef) < maxFileCount \<and> maxHunkCount < hunkCount (replicate 3 bigRef)"
    by (simp add: c maxFileCount_def maxHunkCount_def)
  from SearchForRefs_caps [of "replicate 20000 oneHunkRef"] a
  have "length (SearchForRefs (replicate 20000 oneHunkRef)) = maxFileCount" by blast
  moreover from SearchForRefs_caps [of "replicate 3 bigRef"] b
  have "maxHunkCount < hunkCount (SearchForRefs (replicate 3 bigRef))"
    "hunkCount (butlast (SearchForRefs (replicate 3 bigRef))) \<le> maxHunkCount" by blast+
  ultimately show ?thesis
    using c by (simp add: maxFileCount_def maxHunkCount_def)
qed

end
